theory Spec2Isabelle
  imports Main
begin

section \<open>Python strings\<close>

text \<open>
  A Python \<^verbatim>\<open>str\<close> is a sequence of Unicode code points; \<^verbatim>\<open>len\<close>, slicing and
  indexing count code points. The model therefore uses lists of natural numbers, one
  number per code point, and writes ASCII literals through \<open>ustr\<close>.
\<close>

type_synonym ustring = "nat list"

definition ustr :: "string \<Rightarrow> ustring" where
  "ustr s = map of_char s"

text \<open>
  The code points for which \<^verbatim>\<open>str.isspace\<close> holds. \<^verbatim>\<open>str.strip()\<close> without
  argument and the regular-expression class \<^verbatim>\<open>\s\<close> (on \<^verbatim>\<open>str\<close> patterns) both use
  this set.
\<close>

definition is_space :: "nat \<Rightarrow> bool" where
  "is_space c \<longleftrightarrow>
     (9 \<le> c \<and> c \<le> 13) \<or> (28 \<le> c \<and> c \<le> 32) \<or> c = 133 \<or> c = 160 \<or> c = 5760 \<or>
     (8192 \<le> c \<and> c \<le> 8202) \<or> c = 8232 \<or> c = 8233 \<or> c = 8239 \<or> c = 8287 \<or>
     c = 12288"

definition strip_by :: "(nat \<Rightarrow> bool) \<Rightarrow> ustring \<Rightarrow> ustring" where
  "strip_by P s = rev (dropWhile P (rev (dropWhile P s)))"

text \<open>\<^verbatim>\<open>s.strip()\<close>\<close>

definition strip :: "ustring \<Rightarrow> ustring" where
  "strip s = strip_by is_space s"

text \<open>\<^verbatim>\<open>s.strip(chars)\<close>\<close>

definition strip_chars :: "ustring \<Rightarrow> ustring \<Rightarrow> ustring" where
  "strip_chars cs s = strip_by (\<lambda>c. c \<in> set cs) s"

definition startswith :: "ustring \<Rightarrow> ustring \<Rightarrow> bool" where
  "startswith s p \<longleftrightarrow> take (length p) s = p"

definition endswith :: "ustring \<Rightarrow> ustring \<Rightarrow> bool" where
  "endswith s p \<longleftrightarrow> length p \<le> length s \<and> drop (length s - length p) s = p"

text \<open>\<^verbatim>\<open>sub in s\<close> on strings: \<open>sub\<close> occurs in \<open>s\<close> as a contiguous run.\<close>

fun py_in :: "ustring \<Rightarrow> ustring \<Rightarrow> bool" where
  "py_in sub [] = (sub = [])"
| "py_in sub (c # s) = (startswith (c # s) sub \<or> py_in sub s)"

text \<open>\<^verbatim>\<open>s.split("\n")\<close>: never empty, one more piece than there are newlines.\<close>

fun split_nl :: "ustring \<Rightarrow> ustring list" where
  "split_nl [] = [[]]"
| "split_nl (c # s) =
     (if c = 10 then [] # split_nl s
      else (case split_nl s of
              [] \<Rightarrow> [[c]]
            | l # ls \<Rightarrow> (c # l) # ls))"

text \<open>\<^verbatim>\<open>sep.join(xs)\<close>\<close>

fun py_join :: "ustring \<Rightarrow> ustring list \<Rightarrow> ustring" where
  "py_join sep [] = []"
| "py_join sep [x] = x"
| "py_join sep (x # y # xs) = x @ sep @ py_join sep (y # xs)"

definition join_nl :: "ustring list \<Rightarrow> ustring" where
  "join_nl xs = py_join [10] xs"

text \<open>
  \<^verbatim>\<open>str.lower()\<close> and \<^verbatim>\<open>str.upper()\<close> follow the Unicode case tables, which are not
  part of the program. On strings of ASCII code points they map \<^verbatim>\<open>A-Z\<close> to \<^verbatim>\<open>a-z\<close>
  and back and leave everything else alone; on every other string the result is taken
  from a parameter, so that what is proved holds for whatever the tables say.
\<close>

record casing =
  lower_ext :: "ustring \<Rightarrow> ustring"
  upper_ext :: "ustring \<Rightarrow> ustring"

definition is_ascii :: "ustring \<Rightarrow> bool" where
  "is_ascii s \<longleftrightarrow> list_all (\<lambda>c. c < 128) s"

definition ascii_lower :: "nat \<Rightarrow> nat" where
  "ascii_lower c = (if 65 \<le> c \<and> c \<le> 90 then c + 32 else c)"

definition ascii_upper :: "nat \<Rightarrow> nat" where
  "ascii_upper c = (if 97 \<le> c \<and> c \<le> 122 then c - 32 else c)"

definition py_lower :: "casing \<Rightarrow> ustring \<Rightarrow> ustring" where
  "py_lower U s = (if is_ascii s then map ascii_lower s else lower_ext U s)"

definition py_upper :: "casing \<Rightarrow> ustring \<Rightarrow> ustring" where
  "py_upper U s = (if is_ascii s then map ascii_upper s else upper_ext U s)"

text \<open>A table that leaves non-ASCII strings alone, for evaluating concrete inputs.\<close>

definition plain_casing :: casing where
  "plain_casing = \<lparr>lower_ext = (\<lambda>s. s), upper_ext = (\<lambda>s. s)\<rparr>"

section \<open>Exceptions and dictionaries\<close>

datatype py_error = KeyError | IndexError

text \<open>
  A \<^verbatim>\<open>dict\<close> keeps its keys in insertion order, and both the parser's result and the
  renderer's loop depend on that order: an association list with distinct keys.
  Assigning to an existing key keeps its place, assigning to a new key appends,
  \<^verbatim>\<open>pop\<close> removes the entry, and reading or popping a missing key raises.
\<close>

type_synonym ('k, 'v) dict = "('k \<times> 'v) list"

definition dict_keys :: "('k, 'v) dict \<Rightarrow> 'k list" where
  "dict_keys d = map fst d"

definition dict_has :: "'k \<Rightarrow> ('k, 'v) dict \<Rightarrow> bool" where
  "dict_has k d \<longleftrightarrow> k \<in> set (dict_keys d)"

definition dict_get :: "'k \<Rightarrow> ('k, 'v) dict \<Rightarrow> py_error + 'v" where
  "dict_get k d = (case map_of d k of None \<Rightarrow> Inl KeyError | Some v \<Rightarrow> Inr v)"

fun dict_set :: "'k \<Rightarrow> 'v \<Rightarrow> ('k, 'v) dict \<Rightarrow> ('k, 'v) dict" where
  "dict_set k v [] = [(k, v)]"
| "dict_set k v ((k', v') # d) =
     (if k' = k then (k, v) # d else (k', v') # dict_set k v d)"

fun dict_pop :: "'k \<Rightarrow> ('k, 'v) dict \<Rightarrow> py_error + ('v \<times> ('k, 'v) dict)" where
  "dict_pop k [] = Inl KeyError"
| "dict_pop k ((k', v') # d) =
     (if k' = k then Inr (v', d)
      else (case dict_pop k d of
              Inl e \<Rightarrow> Inl e
            | Inr (v, d') \<Rightarrow> Inr (v, (k', v') # d')))"

section \<open>Regular expressions\<close>

text \<open>
  The patterns of the program are sequences of quantified character classes, some
  captured as a group, closed by \<^verbatim>\<open>$\<close>. \<open>Rep cls lo hi cap\<close> is the class \<open>cls\<close>
  repeated at least \<open>lo\<close> and at most \<open>hi\<close> times (no bound for \<open>None\<close>), a capture
  group when \<open>cap\<close> holds. The matcher is the backtracking one of Python's
  \<^verbatim>\<open>re\<close>: a quantifier is greedy, it takes the longest run first and gives back one
  character at a time until the rest of the pattern matches. A match returns the
  captured groups in order and the text after the match. \<^verbatim>\<open>$\<close> holds at the end of
  the text and before a newline that ends it. \<^verbatim>\<open>pattern.match\<close> matches at the start
  of the text, where \<^verbatim>\<open>^\<close> always holds.
\<close>

datatype item = Rep "nat \<Rightarrow> bool" nat "nat option" bool | Eos

fun first_down :: "(nat \<Rightarrow> 'a option) \<Rightarrow> nat \<Rightarrow> nat \<Rightarrow> 'a option" where
  "first_down f lo k =
     (if k < lo then None
      else (case f k of
              Some r \<Rightarrow> Some r
            | None \<Rightarrow> (if k = 0 then None else first_down f lo (k - 1))))"

primrec match_items :: "item list \<Rightarrow> ustring \<Rightarrow> (ustring list \<times> ustring) option" where
  "match_items [] s = Some ([], s)"
| "match_items (it # rest) s =
     (case it of
        Eos \<Rightarrow> (if s = [] \<or> s = [10] then match_items rest s else None)
      | Rep cls lo hi cap \<Rightarrow>
          (let run = length (takeWhile cls s);
               k = (case hi of None \<Rightarrow> run | Some h \<Rightarrow> min h run)
           in first_down
                (\<lambda>n. case match_items rest (drop n s) of
                       None \<Rightarrow> None
                     | Some (gs, r) \<Rightarrow> Some (if cap then take n s # gs else gs, r))
                lo k))"

text \<open>\<^verbatim>\<open>match.group(1)\<close> raises \<^verbatim>\<open>IndexError\<close> when the pattern has no group.\<close>

definition group1 :: "ustring list \<Rightarrow> py_error + ustring" where
  "group1 gs = (case gs of [] \<Rightarrow> Inl IndexError | g # _ \<Rightarrow> Inr g)"

text \<open>
  \<^verbatim>\<open>re.split(pattern, s)\<close> for a pattern without groups: the pieces of \<open>s\<close> between
  the matches found from left to right, the search resuming where a match ended.
  \<open>acc\<close> is the piece read so far. A match that consumes nothing is not taken (the
  pattern this is used with needs two characters).
\<close>

fun re_split :: "item list \<Rightarrow> ustring \<Rightarrow> ustring \<Rightarrow> ustring list" where
  "re_split p acc [] = [acc]"
| "re_split p acc (c # s) =
     (case match_items p (c # s) of
        None \<Rightarrow> re_split p (acc @ [c]) s
      | Some (gs, r) \<Rightarrow>
          (if length r < length (c # s) then acc # re_split p [] r
           else re_split p (acc @ [c]) s))"

section \<open>The section parser\<close>

text \<open>
  \<^verbatim>\<open>section_patterns\<close> of \<^verbatim>\<open>parse_cv_content\<close>:
  \<^verbatim>\<open>^\s*\*{2}([^*]+)\*{2}\s*$\<close>, \<^verbatim>\<open>^\s*[A-Z\s]{5,}\s*$\<close> and
  \<^verbatim>\<open>^\s*-{3,}\s*([^-]+)\s*-{3,}\s*$\<close>.
\<close>

definition is_AZ :: "nat \<Rightarrow> bool" where
  "is_AZ c \<longleftrightarrow> 65 \<le> c \<and> c \<le> 90"

definition bold_pattern :: "item list" where
  "bold_pattern =
     [Rep is_space 0 None False,
      Rep (\<lambda>c. c = 42) 2 (Some 2) False,
      Rep (\<lambda>c. c \<noteq> 42) 1 None True,
      Rep (\<lambda>c. c = 42) 2 (Some 2) False,
      Rep is_space 0 None False,
      Eos]"

definition upper_pattern :: "item list" where
  "upper_pattern =
     [Rep is_space 0 None False,
      Rep (\<lambda>c. is_AZ c \<or> is_space c) 5 None False,
      Rep is_space 0 None False,
      Eos]"

definition dashed_pattern :: "item list" where
  "dashed_pattern =
     [Rep is_space 0 None False,
      Rep (\<lambda>c. c = 45) 3 None False,
      Rep is_space 0 None False,
      Rep (\<lambda>c. c \<noteq> 45) 1 None True,
      Rep is_space 0 None False,
      Rep (\<lambda>c. c = 45) 3 None False,
      Rep is_space 0 None False,
      Eos]"

definition section_patterns :: "item list list" where
  "section_patterns = [bold_pattern, upper_pattern, dashed_pattern]"

text \<open>
  The loop over the patterns: the first pattern that matches decides and ends the
  loop. The heading text is group 1, stripped and lower-cased; when the pattern has no
  group the \<^verbatim>\<open>except\<close> branch takes the line with \<^verbatim>\<open>*\<close>, space and \<^verbatim>\<open>-\<close> stripped
  instead. The result is the pair \<^verbatim>\<open>(is_section_header, section_name)\<close>, the name
  \<open>None\<close> as in the source when no pattern matched.
\<close>

fun test_patterns :: "casing \<Rightarrow> item list list \<Rightarrow> ustring \<Rightarrow> bool \<times> ustring option" where
  "test_patterns U [] line = (False, None)"
| "test_patterns U (pattern # ps) line =
     (case match_items pattern line of
        None \<Rightarrow> test_patterns U ps line
      | Some (gs, r) \<Rightarrow>
          (case group1 gs of
             Inr g \<Rightarrow> (True, Some (py_lower U (strip g)))
           | Inl e \<Rightarrow> (True, Some (py_lower U (strip (strip_chars (ustr ''* -'') line))))))"

text \<open>
  The classification of a stripped, non-empty line: the patterns, then the test for
  a line that starts and ends with \<^verbatim>\<open>**\<close>, which sets both variables again.
\<close>

definition classify :: "casing \<Rightarrow> ustring \<Rightarrow> bool \<times> ustring option" where
  "classify U line =
     (let detected = test_patterns U section_patterns line
      in if startswith line (ustr ''**'') \<and> endswith line (ustr ''**'')
         then (True, Some (py_lower U (strip (strip_chars (ustr ''*'') line))))
         else detected)"

text \<open>
  \<^verbatim>\<open>if is_section_header and section_name\<close>: the line opens a section only when the
  name is a non-empty string. \<open>heading\<close> gives that name.
\<close>

definition heading :: "bool \<times> ustring option \<Rightarrow> ustring option" where
  "heading r =
     (case r of
        (True, Some name) \<Rightarrow> (if name \<noteq> [] then Some name else None)
      | _ \<Rightarrow> None)"

text \<open>
  One turn of the loop over the lines. The state is \<^verbatim>\<open>current_section\<close> and
  \<^verbatim>\<open>sections\<close>, the latter mapping each key to its list of lines.
\<close>

type_synonym scan_state = "ustring \<times> (ustring, ustring list) dict"

definition scan_line :: "casing \<Rightarrow> scan_state \<Rightarrow> ustring \<Rightarrow> py_error + scan_state" where
  "scan_line U st raw =
     (case st of (current_section, sections) \<Rightarrow>
        (let line = strip raw in
         if line = [] then Inr st
         else (case heading (classify U line) of
                 Some name \<Rightarrow>
                   Inr (name, if dict_has name sections then sections
                              else dict_set name [] sections)
               | None \<Rightarrow>
                   (case dict_get current_section sections of
                      Inl e \<Rightarrow> Inl e
                    | Inr body \<Rightarrow>
                        Inr (current_section,
                             dict_set current_section (body @ [line]) sections)))))"

fun scan_lines :: "casing \<Rightarrow> scan_state \<Rightarrow> ustring list \<Rightarrow> py_error + scan_state" where
  "scan_lines U st [] = Inr st"
| "scan_lines U st (raw # rest) =
     (case scan_line U st raw of
        Inl e \<Rightarrow> Inl e
      | Inr st' \<Rightarrow> scan_lines U st' rest)"

text \<open>\<^verbatim>\<open>for section in sections: sections[section] = "\n".join(sections[section])\<close>\<close>

definition join_sections :: "(ustring, ustring list) dict \<Rightarrow> (ustring, ustring) dict" where
  "join_sections sections = map (\<lambda>(k, v). (k, join_nl v)) sections"

text \<open>
  The header fallback. The loop runs over the keys in order and stops at the first
  section whose body is not blank: its first five lines become the header, and the
  section keeps the lines from the sixth on.
\<close>

fun backfill_loop :: "ustring list \<Rightarrow> (ustring, ustring) dict \<Rightarrow> py_error + (ustring, ustring) dict" where
  "backfill_loop [] sections = Inr sections"
| "backfill_loop (section # rest) sections =
     (case dict_get section sections of
        Inl e \<Rightarrow> Inl e
      | Inr body \<Rightarrow>
          (if strip body \<noteq> [] then
             (let first_lines = take 5 (split_nl body);
                  sections1 = dict_set (ustr ''header'') (join_nl first_lines) sections
              in case dict_get section sections1 of
                   Inl e \<Rightarrow> Inl e
                 | Inr body1 \<Rightarrow>
                     Inr (dict_set section (join_nl (drop 5 (split_nl body1))) sections1))
           else backfill_loop rest sections))"

definition header_backfill :: "(ustring, ustring) dict \<Rightarrow> py_error + (ustring, ustring) dict" where
  "header_backfill sections =
     (if dict_has (ustr ''header'') sections then
        (case dict_get (ustr ''header'') sections of
           Inl e \<Rightarrow> Inl e
         | Inr h \<Rightarrow>
             (if strip h = [] then backfill_loop (dict_keys sections) sections
              else Inr sections))
      else Inr sections)"

text \<open>\<^verbatim>\<open>{k: v for k, v in sections.items() if v.strip()}\<close>\<close>

definition drop_blank :: "(ustring, ustring) dict \<Rightarrow> (ustring, ustring) dict" where
  "drop_blank sections = filter (\<lambda>(k, v). strip v \<noteq> []) sections"

definition common_sections :: "ustring list" where
  "common_sections =
     [ustr ''header'', ustr ''profile'', ustr ''experience'', ustr ''education'',
      ustr ''skills'', ustr ''languages'']"

text \<open>
  The inner loop over \<^verbatim>\<open>list(sections.keys())\<close>: the first existing key that
  contains the common name, or is contained in it, ends the loop.
\<close>

fun find_variant :: "casing \<Rightarrow> ustring \<Rightarrow> ustring list \<Rightarrow> ustring option" where
  "find_variant U section [] = None"
| "find_variant U section (existing # rest) =
     (if py_in section (py_lower U existing) \<or> py_in existing section then Some existing
      else find_variant U section rest)"

text \<open>
  One turn of the loop over \<^verbatim>\<open>common_sections\<close>: a variant found under another
  name is popped and assigned to the common name; when no variant is found and the
  name is missing it is added with an empty body.
\<close>

definition ensure_section ::
  "casing \<Rightarrow> ustring \<Rightarrow> (ustring, ustring) dict \<Rightarrow> py_error + (ustring, ustring) dict" where
  "ensure_section U section sections =
     (case find_variant U section (dict_keys sections) of
        Some existing \<Rightarrow>
          (if existing \<noteq> section then
             (case dict_pop existing sections of
                Inl e \<Rightarrow> Inl e
              | Inr (v, sections') \<Rightarrow> Inr (dict_set section v sections'))
           else Inr sections)
      | None \<Rightarrow>
          (if \<not> dict_has section sections then Inr (dict_set section [] sections)
           else Inr sections))"

fun ensure_sections ::
  "casing \<Rightarrow> ustring list \<Rightarrow> (ustring, ustring) dict \<Rightarrow> py_error + (ustring, ustring) dict" where
  "ensure_sections U [] sections = Inr sections"
| "ensure_sections U (section # rest) sections =
     (case ensure_section U section sections of
        Inl e \<Rightarrow> Inl e
      | Inr sections' \<Rightarrow> ensure_sections U rest sections')"

text \<open>
  The mapping after the loop over the lines and the join of each list of lines.
\<close>

definition scanned :: "casing \<Rightarrow> ustring \<Rightarrow> py_error + (ustring, ustring) dict" where
  "scanned U content =
     (case scan_lines U (ustr ''header'', [(ustr ''header'', [])]) (split_nl content) of
        Inl e \<Rightarrow> Inl e
      | Inr (current_section, sections) \<Rightarrow> Inr (join_sections sections))"

text \<open>
  The mapping after the header fallback and the removal of blank sections: the
  sections discovered with a body, in the order in which their keys were first met.
\<close>

definition discovered :: "casing \<Rightarrow> ustring \<Rightarrow> py_error + (ustring, ustring) dict" where
  "discovered U content =
     (case scanned U content of
        Inl e \<Rightarrow> Inl e
      | Inr sections \<Rightarrow>
          (case header_backfill sections of
             Inl e \<Rightarrow> Inl e
           | Inr sections' \<Rightarrow> Inr (drop_blank sections')))"

definition parse_cv_content :: "casing \<Rightarrow> ustring \<Rightarrow> py_error + (ustring, ustring) dict" where
  "parse_cv_content U content =
     (case discovered U content of
        Inl e \<Rightarrow> Inl e
      | Inr sections \<Rightarrow> ensure_sections U common_sections sections)"

section \<open>The page renderer\<close>

text \<open>
  \<^verbatim>\<open>create_cv_pdf\<close> drives an object of the library class \<^verbatim>\<open>FPDF\<close>. The model
  returns the calls the function makes on that object, in order, with their arguments.
  What the library does with a call (measuring and wrapping text, breaking pages and
  drawing the footer, producing the bytes) is not part of the program and is not
  modelled. \<open>GetXY\<close> stands for reading \<^verbatim>\<open>current_x\<close> and \<^verbatim>\<open>current_y\<close>, and
  \<open>SetXY dx\<close> for \<^verbatim>\<open>set_xy(current_x + dx, current_y)\<close>.
\<close>

datatype pdf_cmd =
    AddPage
  | SetMargins nat nat nat
  | SetAutoPageBreak bool nat
  | SetFont ustring ustring nat
  | SetTextColor nat nat nat
  | SetFillColor nat nat nat
  | Cell nat nat ustring bool ustring bool
  | MultiCell nat nat ustring ustring
  | Ln nat
  | GetXY
  | SetXY nat
  | Output

text \<open>
  \<open>Cell w h txt ln align fill\<close> and \<open>MultiCell w h txt align\<close>; the alignment is
  empty for \<^verbatim>\<open>cell\<close> and \<^verbatim>\<open>J\<close> for \<^verbatim>\<open>multi_cell\<close> when the call gives none.
\<close>

definition is_bullet_line :: "ustring \<Rightarrow> bool" where
  "is_bullet_line line \<longleftrightarrow> startswith line (ustr ''-'') \<or> startswith line [8226]"

definition max_line_length :: nat where
  "max_line_length = 120"

text \<open>\<^verbatim>\<open>if len(line) > max_line_length: line = line[:max_line_length] + "..."\<close>\<close>

definition truncate_line :: "ustring \<Rightarrow> ustring" where
  "truncate_line line =
     (if length line > max_line_length then take max_line_length line @ ustr ''...''
      else line)"

text \<open>One turn of the loop over the lines that remain in a block.\<close>

definition render_line :: "ustring \<Rightarrow> py_error + pdf_cmd list" where
  "render_line raw =
     (let line = strip raw in
      if line = [] then Inr []
      else (let line = truncate_line line in
            if is_bullet_line line then
              (case line of
                 [] \<Rightarrow> Inl IndexError
               | bullet # bullet_text \<Rightarrow>
                   Inr [GetXY, SetXY 0, Cell 3 4 [bullet] False [] False,
                        SetXY 5, MultiCell 0 4 (strip bullet_text) (ustr ''J'')])
            else Inr [MultiCell 0 4 line (ustr ''J'')]))"

fun render_lines :: "ustring list \<Rightarrow> py_error + pdf_cmd list" where
  "render_lines [] = Inr []"
| "render_lines (line # rest) =
     (case render_line line of
        Inl e \<Rightarrow> Inl e
      | Inr cmds \<Rightarrow>
          (case render_lines rest of
             Inl e \<Rightarrow> Inl e
           | Inr cmds' \<Rightarrow> Inr (cmds @ cmds')))"

definition sub_heading :: "ustring \<Rightarrow> pdf_cmd list" where
  "sub_heading first_line =
     [SetFont (ustr ''Arial'') (ustr ''B'') 10, SetTextColor 80 80 80,
      MultiCell 0 5 first_line (ustr ''J''),
      SetTextColor 0 0 0, SetFont (ustr ''Arial'') [] 9]"

text \<open>
  One turn of the loop over the items of a section: a blank item is skipped;
  otherwise the first line, stripped, is printed as a sub-heading unless it starts
  with a bullet marker, the other lines go through \<open>render_lines\<close>, and the item
  ends with \<^verbatim>\<open>ln(2)\<close>.
\<close>

definition render_item :: "ustring \<Rightarrow> py_error + pdf_cmd list" where
  "render_item item =
     (if strip item = [] then Inr []
      else (case split_nl item of
              [] \<Rightarrow> Inr [Ln 2]
            | l0 # rest \<Rightarrow>
                (let first_line = strip l0 in
                 if \<not> startswith first_line (ustr ''-'') \<and> \<not> startswith first_line [8226]
                 then (case render_lines rest of
                         Inl e \<Rightarrow> Inl e
                       | Inr cmds \<Rightarrow> Inr (sub_heading first_line @ cmds @ [Ln 2]))
                 else (case render_lines (l0 # rest) of
                         Inl e \<Rightarrow> Inl e
                       | Inr cmds \<Rightarrow> Inr (cmds @ [Ln 2])))))"

fun render_items :: "ustring list \<Rightarrow> py_error + pdf_cmd list" where
  "render_items [] = Inr []"
| "render_items (item # rest) =
     (case render_item item of
        Inl e \<Rightarrow> Inl e
      | Inr cmds \<Rightarrow>
          (case render_items rest of
             Inl e \<Rightarrow> Inl e
           | Inr cmds' \<Rightarrow> Inr (cmds @ cmds')))"

text \<open>\<^verbatim>\<open>re.split(r'\n\s*\n', section_content)\<close>\<close>

definition blank_run_pattern :: "item list" where
  "blank_run_pattern =
     [Rep (\<lambda>c. c = 10) 1 (Some 1) False,
      Rep is_space 0 None False,
      Rep (\<lambda>c. c = 10) 1 (Some 1) False]"

definition split_items :: "ustring \<Rightarrow> ustring list" where
  "split_items section_content = re_split blank_run_pattern [] section_content"

definition banner :: "casing \<Rightarrow> ustring \<Rightarrow> pdf_cmd list" where
  "banner U section_name =
     [SetFillColor 0 102 204, SetTextColor 255 255 255,
      SetFont (ustr ''Arial'') (ustr ''B'') 11,
      Cell 0 7 (ustr '' '' @ py_upper U section_name) True [] True,
      SetTextColor 0 0 0, Ln 1]"

text \<open>One turn of the loop over \<^verbatim>\<open>sections.items()\<close>.\<close>

definition render_section :: "casing \<Rightarrow> ustring \<times> ustring \<Rightarrow> py_error + pdf_cmd list" where
  "render_section U entry =
     (case entry of (section_name, section_content) \<Rightarrow>
        (if section_name = ustr ''header'' \<or> strip section_content = [] then Inr []
         else (case render_items (split_items section_content) of
                 Inl e \<Rightarrow> Inl e
               | Inr cmds \<Rightarrow> Inr (banner U section_name @ cmds @ [Ln 3]))))"





section \<open>Predicates used in the statements\<close>

text \<open>
  A body line is a line that the loop over the lines appends to a section: not
  empty, stripped, free of newlines and not a heading.
\<close>

definition body_line :: "casing \<Rightarrow> ustring \<Rightarrow> bool" where
  "body_line U l \<longleftrightarrow> l \<noteq> [] \<and> strip l = l \<and> 10 \<notin> set l \<and> heading (classify U l) = None"

text \<open>A section body is empty, or each of its lines is a body line.\<close>

definition good_body :: "casing \<Rightarrow> ustring \<Rightarrow> bool" where
  "good_body U b \<longleftrightarrow> b = [] \<or> list_all (body_line U) (split_nl b)"

text \<open>The invariant of the loop over the lines.\<close>

definition scan_inv :: "casing \<Rightarrow> scan_state \<Rightarrow> bool" where
  "scan_inv U st \<longleftrightarrow>
     (case st of (current_section, sections) \<Rightarrow>
        current_section \<in> set (dict_keys sections) \<and>
        ustr ''header'' \<in> set (dict_keys sections) \<and>
        distinct (dict_keys sections) \<and>
        list_all (\<lambda>(k, ls). list_all (body_line U) ls) sections)"

text \<open>
  The calls for one line of a block, as the claims describe them: a line longer than
  120 characters is cut to its first 120 characters followed by three dots; a line
  that starts with a bullet marker gives the marker in a cell of its own and the
  rest of the line, stripped, in a wrapped cell; any other line gives one wrapped
  cell.
\<close>

definition line_cmds :: "ustring \<Rightarrow> pdf_cmd list" where
  "line_cmds line =
     (if is_bullet_line line then
        [GetXY, SetXY 0, Cell 3 4 (take 1 line) False [] False, SetXY 5,
         MultiCell 0 4 (strip (drop 1 (truncate_line line))) (ustr ''J'')]
      else [MultiCell 0 4 (truncate_line line) (ustr ''J'')])"

text \<open>
  The calls for one block, given as its lines: when the first line starts with a
  bullet marker every line is a line of the block; otherwise the first line is the
  sub-heading and the other lines are the lines of the block. The calls for one
  section are the banner, its one block, and the two line feeds that close the
  block and the section.
\<close>

definition block_cmds :: "ustring list \<Rightarrow> pdf_cmd list" where
  "block_cmds lines =
     (case lines of
        [] \<Rightarrow> []
      | first # rest \<Rightarrow>
          (if is_bullet_line first then concat (map line_cmds (first # rest))
           else sub_heading first @ concat (map line_cmds rest)))"

definition section_cmds :: "casing \<Rightarrow> ustring \<times> ustring \<Rightarrow> pdf_cmd list" where
  "section_cmds U entry =
     (case entry of (k, b) \<Rightarrow> banner U k @ block_cmds (split_nl b) @ [Ln 2, Ln 3])"

text \<open>The text that a call prints, and the calls that print a sub-heading.\<close>

definition cmd_text :: "pdf_cmd \<Rightarrow> ustring" where
  "cmd_text c =
     (case c of
        Cell w h txt ln align fill \<Rightarrow> txt
      | MultiCell w h txt align \<Rightarrow> txt
      | _ \<Rightarrow> [])"

definition is_sub_heading :: "pdf_cmd \<Rightarrow> bool" where
  "is_sub_heading c \<longleftrightarrow> (case c of MultiCell w h txt align \<Rightarrow> h = 5 | _ \<Rightarrow> False)"


text \<open>A text in which every newline is followed by a character that is not a blank.\<close>

fun no_blank_run :: "ustring \<Rightarrow> bool" where
  "no_blank_run [] = True"
| "no_blank_run (c # s) = ((c = 10 \<longrightarrow> s \<noteq> [] \<and> \<not> is_space (hd s)) \<and> no_blank_run s)"

section \<open>Dictionaries and strings\<close>

lemma dict_keys_simps [simp]:
  "dict_keys [] = []" "dict_keys ((k, v) # d) = k # dict_keys d"
  by (simp_all add: dict_keys_def)

lemma dict_keys_set:
  "dict_keys (dict_set k v d) = (if k \<in> set (dict_keys d) then dict_keys d else dict_keys d @ [k])"
  by (induction d) auto

lemma dict_get_set: "dict_get k' (dict_set k v d) = (if k' = k then Inr v else dict_get k' d)"
  by (induction d) (auto simp: dict_get_def)

lemma dict_get_keys: "k \<in> set (dict_keys d) \<Longrightarrow> \<exists>v. dict_get k d = Inr v"
  by (induction d) (auto simp: dict_get_def)

lemma dict_get_Inr_keys: "dict_get k d = Inr v \<Longrightarrow> k \<in> set (dict_keys d)"
  by (induction d) (auto simp: dict_get_def split: if_splits)

lemma dict_get_Inr_mem: "dict_get k d = Inr v \<Longrightarrow> (k, v) \<in> set d"
  by (auto simp: dict_get_def split: option.splits dest: map_of_SomeD)

lemma dict_get_distinct: "distinct (dict_keys d) \<Longrightarrow> (k, v) \<in> set d \<Longrightarrow> dict_get k d = Inr v"
  by (simp add: dict_get_def dict_keys_def)

lemma dict_pop_keys:
  "k \<in> set (dict_keys d) \<Longrightarrow> \<exists>v d'. dict_pop k d = Inr (v, d') \<and> dict_keys d' = remove1 k (dict_keys d) \<and> set d' \<subseteq> set d \<and> (k, v) \<in> set d"
proof (induction d)
  case Nil
  then show ?case by simp
next
  case (Cons a d)
  obtain k' v' where a: "a = (k', v')" by (cases a)
  show ?case
  proof (cases "k' = k")
    case True
    then show ?thesis using a by auto
  next
    case False
    with Cons.prems a have "k \<in> set (dict_keys d)" by simp
    from Cons.IH [OF this] obtain v d' where
      "dict_pop k d = Inr (v, d')" "dict_keys d' = remove1 k (dict_keys d)" "set d' \<subseteq> set d" "(k, v) \<in> set d"
      by blast
    then show ?thesis using a False by auto
  qed
qed

lemma distinct_dict_set: "distinct (dict_keys d) \<Longrightarrow> distinct (dict_keys (dict_set k v d))"
  by (simp add: dict_keys_set)

lemma dict_set_mem: "(k', v') \<in> set (dict_set k v d) \<Longrightarrow> (k' = k \<and> v' = v) \<or> (k', v') \<in> set d"
  by (induction d) (auto split: if_splits)



lemma strip_by_Nil [simp]: "strip_by P [] = []"
  by (simp add: strip_by_def)


lemma rstrip_keep: "\<not> P c \<Longrightarrow> rev (dropWhile P (rev (c # t))) = c # rev (dropWhile P (rev t))"
  by (simp add: dropWhile_append dropWhile_eq_Nil_conv)

lemma set_strip_by: "set (strip_by P s) \<subseteq> set s"
proof
  fix x assume "x \<in> set (strip_by P s)"
  then have "x \<in> set (dropWhile P (rev (dropWhile P s)))" by (simp add: strip_by_def)
  then have "x \<in> set (rev (dropWhile P s))" by (rule set_dropWhileD)
  then have "x \<in> set (dropWhile P s)" by simp
  then show "x \<in> set s" by (rule set_dropWhileD)
qed

lemma strip_by_all: "\<forall>c\<in>set s. P c \<Longrightarrow> strip_by P s = []"
proof -
  assume "\<forall>c\<in>set s. P c"
  then have d: "dropWhile P s = []" by (simp add: dropWhile_eq_Nil_conv)
  show ?thesis unfolding strip_by_def d by simp
qed

lemma strip_by_Cons:
  "dropWhile P s = c # t \<Longrightarrow> strip_by P s = c # rev (dropWhile P (rev t)) \<and> \<not> P c \<and> c \<in> set s"
proof -
  assume d: "dropWhile P s = c # t"
  have "dropWhile P s \<noteq> []" unfolding d by simp
  then have "\<not> P (hd (dropWhile P s))" by (rule hd_dropWhile)
  then have nc: "\<not> P c" unfolding d by simp
  have "c \<in> set (dropWhile P s)" using d by simp
  then have "c \<in> set s" by (rule set_dropWhileD)
  moreover have "strip_by P s = c # rev (dropWhile P (rev t))"
    unfolding strip_by_def d using nc by (rule rstrip_keep)
  ultimately show ?thesis using nc by simp
qed

lemma strip_by_empty_iff: "strip_by P s = [] \<longleftrightarrow> (\<forall>c\<in>set s. P c)"
proof (cases "dropWhile P s")
  case Nil
  then have "\<forall>c\<in>set s. P c" by (simp add: dropWhile_eq_Nil_conv)
  then show ?thesis using strip_by_all by blast
next
  case (Cons c t)
  from strip_by_Cons [OF this] show ?thesis by auto
qed

lemma strip_by_hd: "strip_by P s \<noteq> [] \<Longrightarrow> \<not> P (hd (strip_by P s))"
proof (cases "dropWhile P s")
  case Nil
  assume ne: "strip_by P s \<noteq> []"
  from Nil have "\<forall>c\<in>set s. P c" by (simp add: dropWhile_eq_Nil_conv)
  with ne strip_by_all show ?thesis by blast
next
  case (Cons c t)
  from strip_by_Cons [OF this] show ?thesis by simp
qed

lemma strip_by_last: "strip_by P s \<noteq> [] \<Longrightarrow> \<not> P (last (strip_by P s))"
proof -
  assume ne: "strip_by P s \<noteq> []"
  let ?r = "dropWhile P (rev (dropWhile P s))"
  from ne have "?r \<noteq> []" by (simp add: strip_by_def)
  then have "\<not> P (hd ?r)" by (rule hd_dropWhile)
  moreover have "last (rev ?r) = hd ?r" using \<open>?r \<noteq> []\<close> by (simp add: last_rev)
  ultimately show ?thesis by (simp add: strip_by_def)
qed

lemma strip_by_id: "s \<noteq> [] \<Longrightarrow> \<not> P (hd s) \<Longrightarrow> \<not> P (last s) \<Longrightarrow> strip_by P s = s"
proof -
  assume a: "s \<noteq> []" "\<not> P (hd s)" "\<not> P (last s)"
  then have 1: "dropWhile P s = s" by (cases s) auto
  from a have "rev s \<noteq> []" "\<not> P (hd (rev s))" by (simp_all add: hd_rev)
  then have "dropWhile P (rev s) = rev s" by (cases "rev s") auto
  with 1 show ?thesis by (simp add: strip_by_def)
qed

lemma strip_by_idem: "strip_by P (strip_by P s) = strip_by P s"
proof (cases "strip_by P s = []")
  case True
  then show ?thesis by simp
next
  case False
  show ?thesis
    by (rule strip_by_id [OF False strip_by_hd [OF False] strip_by_last [OF False]])
qed

lemma strip_idem [simp]: "strip (strip s) = strip s"
  by (simp add: strip_def strip_by_idem)

lemma strip_Nil [simp]: "strip [] = []"
  by (simp add: strip_def)

lemma strip_empty_iff: "strip s = [] \<longleftrightarrow> (\<forall>c\<in>set s. is_space c)"
  by (simp add: strip_def strip_by_empty_iff)

lemma set_strip: "set (strip s) \<subseteq> set s"
  by (simp add: strip_def set_strip_by)

lemma strip_hd: "strip s \<noteq> [] \<Longrightarrow> \<not> is_space (hd (strip s))"
  unfolding strip_def by (rule strip_by_hd)


lemma split_nl_ne [simp]: "split_nl s \<noteq> []"
  by (induction s) (auto split: list.splits)

lemma split_nl_no_nl: "l \<in> set (split_nl s) \<Longrightarrow> 10 \<notin> set l"
  by (induction s arbitrary: l) (auto split: list.splits if_splits)

lemma split_nl_line: "10 \<notin> set l \<Longrightarrow> split_nl l = [l]"
  by (induction l) auto

lemma split_nl_append_line: "10 \<notin> set l \<Longrightarrow> split_nl (l @ 10 # s) = l # split_nl s"
  by (induction l) (auto split: list.splits)

lemma join_nl_simps [simp]:
  "join_nl [] = []" "join_nl [l] = l" "join_nl (l # l' # ls) = l @ 10 # join_nl (l' # ls)"
  by (simp_all add: join_nl_def)

lemma split_join: "ls \<noteq> [] \<Longrightarrow> \<forall>l\<in>set ls. 10 \<notin> set l \<Longrightarrow> split_nl (join_nl ls) = ls"
proof (induction ls rule: induct_list012)
  case 1
  then show ?case by simp
next
  case (2 l)
  then show ?case by (simp add: split_nl_line)
next
  case (3 l l' ls)
  then show ?case by (simp add: split_nl_append_line)
qed

lemma join_split: "join_nl (split_nl s) = s"
proof (induction s)
  case Nil
  then show ?case by simp
next
  case (Cons c s)
  obtain l ls where sp: "split_nl s = l # ls" by (cases "split_nl s") auto
  show ?case
  proof (cases "c = 10")
    case True
    then show ?thesis using Cons sp by simp
  next
    case False
    then show ?thesis using Cons sp by (cases ls) auto
  qed
qed

lemma ustr_simps: "ustr [] = []" "ustr (c # s) = of_char c # ustr s"
  by (simp_all add: ustr_def)


lemma list_all_dict_set:
  "list_all (\<lambda>(k, v). Q v) d \<Longrightarrow> Q v \<Longrightarrow> list_all (\<lambda>(k, v). Q v) (dict_set k v d)"
  by (induction d) auto

lemma list_all_dict_get:
  "list_all (\<lambda>(k, v). Q v) d \<Longrightarrow> dict_get k d = Inr v \<Longrightarrow> Q v"
  by (auto simp: list_all_iff dest: dict_get_Inr_mem)

lemma strip_no_nl: "10 \<notin> set raw \<Longrightarrow> 10 \<notin> set (strip raw)"
  using set_strip by blast

lemma scan_line_inv:
  assumes inv: "scan_inv U st" and raw: "10 \<notin> set raw"
  shows "\<exists>st'. scan_line U st raw = Inr st' \<and> scan_inv U st'"
proof -
  obtain cur secs where st: "st = (cur, secs)" by (cases st)
  from inv st have cur: "cur \<in> set (dict_keys secs)"
    and hdr: "ustr ''header'' \<in> set (dict_keys secs)"
    and dist: "distinct (dict_keys secs)"
    and good: "list_all (\<lambda>(k, ls). list_all (body_line U) ls) secs"
    by (simp_all add: scan_inv_def)
  show ?thesis
  proof (cases "strip raw = []")
    case True
    then show ?thesis using inv st by (simp add: scan_line_def)
  next
    case False
    show ?thesis
    proof (cases "heading (classify U (strip raw))")
      case (Some name)
      have "scan_inv U (name, if dict_has name secs then secs else dict_set name [] secs)"
        using hdr dist good
        by (auto simp: scan_inv_def dict_has_def dict_keys_set intro: list_all_dict_set)
      then show ?thesis using st False Some by (simp add: scan_line_def)
    next
      case None
      from dict_get_keys [OF cur] obtain body where body: "dict_get cur secs = Inr body" by blast
      have b: "list_all (body_line U) body" using list_all_dict_get [OF good body] .
      have l: "body_line U (strip raw)"
        using False None raw by (simp add: body_line_def strip_no_nl)
      have "scan_inv U (cur, dict_set cur (body @ [strip raw]) secs)"
        using cur hdr dist good b l
        by (auto simp: scan_inv_def dict_keys_set intro: list_all_dict_set)
      then show ?thesis using st False None body by (simp add: scan_line_def)
    qed
  qed
qed

lemma scan_lines_inv:
  "scan_inv U st \<Longrightarrow> \<forall>l\<in>set ls. 10 \<notin> set l \<Longrightarrow> \<exists>st'. scan_lines U st ls = Inr st' \<and> scan_inv U st'"
proof (induction ls arbitrary: st)
  case Nil
  then show ?case by simp
next
  case (Cons raw rest)
  from scan_line_inv [OF Cons.prems(1), of raw] Cons.prems(2)
  obtain st1 where 1: "scan_line U st raw = Inr st1" "scan_inv U st1" by auto
  from Cons.IH [OF 1(2)] Cons.prems(2)
  obtain st' where "scan_lines U st1 rest = Inr st'" "scan_inv U st'" by auto
  with 1 show ?case by simp
qed

lemma scan_inv_init: "scan_inv U (ustr ''header'', [(ustr ''header'', [])])"
  by (simp add: scan_inv_def)

lemma good_body_join: "list_all (body_line U) ls \<Longrightarrow> good_body U (join_nl ls)"
proof (cases "ls = []")
  case True
  then show ?thesis by (simp add: good_body_def)
next
  case False
  assume a: "list_all (body_line U) ls"
  then have "\<forall>l\<in>set ls. 10 \<notin> set l" by (simp add: list_all_iff body_line_def)
  from split_join [OF False this] a show ?thesis by (simp add: good_body_def)
qed

text \<open>What holds of the mapping when the loop over the lines has ended.\<close>

lemma scanned_ok:
  "\<exists>S. scanned U content = Inr S \<and> ustr ''header'' \<in> set (dict_keys S) \<and>
       distinct (dict_keys S) \<and> list_all (\<lambda>(k, b). good_body U b) S"
proof -
  have "\<forall>l\<in>set (split_nl content). 10 \<notin> set l" using split_nl_no_nl by blast
  from scan_lines_inv [OF scan_inv_init this]
  obtain st where st: "scan_lines U (ustr ''header'', [(ustr ''header'', [])]) (split_nl content) = Inr st"
    and inv: "scan_inv U st" by blast
  obtain cur secs where cs: "st = (cur, secs)" by (cases st)
  have k: "dict_keys (join_sections secs) = dict_keys secs"
    by (induction secs) (auto simp: join_sections_def)
  have "list_all (\<lambda>(k, ls). list_all (body_line U) ls) secs"
    using inv cs by (simp add: scan_inv_def)
  then have g: "list_all (\<lambda>(k, b). good_body U b) (join_sections secs)"
    by (induction secs) (auto simp: join_sections_def intro: good_body_join)
  show ?thesis using st cs inv k g by (simp add: scanned_def scan_inv_def)
qed


lemma good_body_take: "good_body U b \<Longrightarrow> good_body U (join_nl (take n (split_nl b)))"
proof (cases "b = []")
  case True
  then show ?thesis by (cases n) (simp_all add: good_body_def)
next
  case False
  assume "good_body U b"
  with False have "list_all (body_line U) (split_nl b)" by (simp add: good_body_def)
  then have "list_all (body_line U) (take n (split_nl b))"
    by (auto simp: list_all_iff dest: in_set_takeD)
  then show ?thesis by (rule good_body_join)
qed

lemma good_body_drop: "good_body U b \<Longrightarrow> good_body U (join_nl (drop n (split_nl b)))"
proof (cases "b = []")
  case True
  then show ?thesis by (cases n) (simp_all add: good_body_def)
next
  case False
  assume "good_body U b"
  with False have "list_all (body_line U) (split_nl b)" by (simp add: good_body_def)
  then have "list_all (body_line U) (drop n (split_nl b))"
    by (auto simp: list_all_iff dest: in_set_dropD)
  then show ?thesis by (rule good_body_join)
qed

text \<open>The loop of the header fallback stops at the first entry whose body is not blank.\<close>

lemma backfill_loop_find:
  assumes "distinct (dict_keys S)" and "set rest \<subseteq> set S"
  shows "backfill_loop (dict_keys rest) S =
     (case find (\<lambda>(k, v). strip v \<noteq> []) rest of
        None \<Rightarrow> Inr S
      | Some (k, body) \<Rightarrow>
          (let S1 = dict_set (ustr ''header'') (join_nl (take 5 (split_nl body))) S
           in case dict_get k S1 of
                Inl e \<Rightarrow> Inl e
              | Inr body1 \<Rightarrow> Inr (dict_set k (join_nl (drop 5 (split_nl body1))) S1)))"
  using assms(2)
proof (induction rest)
  case Nil
  then show ?case by simp
next
  case (Cons a rest)
  obtain k v where a: "a = (k, v)" by (cases a)
  with Cons.prems have "(k, v) \<in> set S" by simp
  from dict_get_distinct [OF assms(1) this] have g: "dict_get k S = Inr v" .
  from Cons.prems have "set rest \<subseteq> set S" by simp
  from Cons.IH [OF this] show ?case using a g by simp
qed

lemma header_backfill_ok:
  assumes dist: "distinct (dict_keys S)" and good: "list_all (\<lambda>(k, b). good_body U b) S"
  shows "\<exists>S'. header_backfill S = Inr S' \<and> dict_keys S' = dict_keys S \<and>
           list_all (\<lambda>(k, b). good_body U b) S'"
proof (cases "dict_has (ustr ''header'') S")
  case False
  then show ?thesis using good by (simp add: header_backfill_def)
next
  case True
  then have hk: "ustr ''header'' \<in> set (dict_keys S)" by (simp add: dict_has_def)
  from dict_get_keys [OF this] obtain h where h: "dict_get (ustr ''header'') S = Inr h" by blast
  show ?thesis
  proof (cases "strip h = []")
    case False
    then show ?thesis using True h good by (simp add: header_backfill_def)
  next
    case blank: True
    have loop: "header_backfill S = backfill_loop (dict_keys S) S"
      using True h blank by (simp add: header_backfill_def)
    show ?thesis
    proof (cases "find (\<lambda>(k, v). strip v \<noteq> []) S")
      case None
      then show ?thesis using loop backfill_loop_find [OF dist subset_refl] good by simp
    next
      case (Some kb)
      obtain k body where kb: "kb = (k, body)" by (cases kb)
      let ?S1 = "dict_set (ustr ''header'') (join_nl (take 5 (split_nl body))) S"
      from Some kb have mem: "(k, body) \<in> set S"
        by (auto simp: find_Some_iff in_set_conv_nth)
      then have gb: "good_body U body" using good by (auto simp: list_all_iff)
      have k1: "dict_keys ?S1 = dict_keys S" using hk by (simp add: dict_keys_set)
      have g1: "list_all (\<lambda>(k, b). good_body U b) ?S1"
        by (rule list_all_dict_set [OF good good_body_take [OF gb]])
      from mem have "k \<in> set (dict_keys S)" by (force simp: dict_keys_def)
      then have kin: "k \<in> set (dict_keys ?S1)" using k1 by simp
      from dict_get_keys [OF this] obtain body1 where b1: "dict_get k ?S1 = Inr body1" by blast
      have gb1: "good_body U body1" using list_all_dict_get [OF g1 b1] .
      let ?S2 = "dict_set k (join_nl (drop 5 (split_nl body1))) ?S1"
      have res: "header_backfill S = Inr ?S2"
        using loop backfill_loop_find [OF dist subset_refl] Some kb b1 by (simp add: Let_def)
      have "dict_keys ?S2 = dict_keys S" using kin k1 by (simp add: dict_keys_set)
      moreover have "list_all (\<lambda>(k, b). good_body U b) ?S2"
        by (rule list_all_dict_set [OF g1 good_body_drop [OF gb1]])
      ultimately show ?thesis using res by simp
    qed
  qed
qed

lemma drop_blank_keys: "distinct (dict_keys S) \<Longrightarrow> distinct (dict_keys (drop_blank S))"
  by (simp add: drop_blank_def dict_keys_def distinct_map_filter)

lemma discovered_ok:
  "\<exists>D. discovered U content = Inr D \<and> distinct (dict_keys D) \<and>
       list_all (\<lambda>(k, b). good_body U b \<and> strip b \<noteq> []) D"
proof -
  from scanned_ok obtain S where S: "scanned U content = Inr S" "distinct (dict_keys S)"
    "list_all (\<lambda>(k, b). good_body U b) S" by blast
  from header_backfill_ok [OF S(2,3)] obtain S' where S': "header_backfill S = Inr S'"
    "dict_keys S' = dict_keys S" "list_all (\<lambda>(k, b). good_body U b) S'" by blast
  have "distinct (dict_keys (drop_blank S'))" using S(2) S'(2) by (simp add: drop_blank_keys)
  moreover have "list_all (\<lambda>(k, b). good_body U b \<and> strip b \<noteq> []) (drop_blank S')"
    using S'(3) by (auto simp: drop_blank_def list_all_iff)
  ultimately show ?thesis using S(1) S'(1) by (simp add: discovered_def)
qed

lemma py_in_refl: "py_in s s"
  by (cases s) (simp_all add: startswith_def)

lemma common_ascii: "c \<in> set common_sections \<Longrightarrow> py_lower U c = c"
  by (auto simp: common_sections_def ustr_simps py_lower_def is_ascii_def ascii_lower_def)

lemma common_no_overlap:
  "a \<in> set common_sections \<Longrightarrow> b \<in> set common_sections \<Longrightarrow> a \<noteq> b \<Longrightarrow> \<not> py_in a b"
  by (auto simp: common_sections_def ustr_simps startswith_def)

lemma distinct_common: "distinct common_sections"
  by (simp add: common_sections_def ustr_simps)

lemma find_variant_Some:
  "find_variant U s ks = Some e \<Longrightarrow> e \<in> set ks \<and> (py_in s (py_lower U e) \<or> py_in e s)"
  by (induction ks) (auto split: if_splits)

lemma find_variant_None:
  "find_variant U s ks = None \<Longrightarrow> e \<in> set ks \<Longrightarrow> \<not> py_in s (py_lower U e) \<and> \<not> py_in e s"
  by (induction ks) (auto split: if_splits)

lemma find_variant_common:
  assumes "find_variant U s ks = Some e" "s \<in> set common_sections" "e \<in> set common_sections"
  shows "e = s"
proof (rule ccontr)
  assume ne: "e \<noteq> s"
  from find_variant_Some [OF assms(1)] have "py_in s (py_lower U e) \<or> py_in e s" by simp
  then have "py_in s e \<or> py_in e s" using common_ascii [OF assms(3)] by simp
  with common_no_overlap assms(2,3) ne show False by metis
qed


lemma find_variant_present:
  "s \<in> set common_sections \<Longrightarrow> s \<in> set ks \<Longrightarrow> find_variant U s ks \<noteq> None"
proof
  assume a: "s \<in> set common_sections" "s \<in> set ks" "find_variant U s ks = None"
  from find_variant_None [OF a(3,2)] have "\<not> py_in s (py_lower U s)" by simp
  then show False using common_ascii [OF a(1)] py_in_refl by simp
qed

lemma filter_neq_id: "e \<notin> set ks \<Longrightarrow> filter (\<lambda>k. k \<noteq> e) ks = ks"
  by (induction ks) auto

lemma distinct_remove1_filter: "distinct ks \<Longrightarrow> remove1 e ks = filter (\<lambda>k. k \<noteq> e) ks"
  by (induction ks) (auto simp: filter_neq_id)

text \<open>
  One turn of the loop over the common names: the name is a key afterwards, the keys
  that stay keep their order, a name that was missing is the last key, and no common
  name that was a key is lost.
\<close>

lemma ensure_section_ok:
  assumes dist: "distinct (dict_keys d)" and s: "s \<in> set common_sections"
    and Q: "list_all (\<lambda>(k, b). Q b) d" "Q []"
  shows "\<exists>d'. ensure_section U s d = Inr d' \<and> distinct (dict_keys d') \<and>
           s \<in> set (dict_keys d') \<and>
           dict_keys d' = filter (\<lambda>k. k \<in> set (dict_keys d')) (dict_keys d)
                          @ (if s \<in> set (dict_keys d) then [] else [s]) \<and>
           (\<forall>c\<in>set common_sections. c \<in> set (dict_keys d) \<longrightarrow> c \<in> set (dict_keys d')) \<and>
           set (dict_keys d') \<subseteq> insert s (set (dict_keys d)) \<and>
           list_all (\<lambda>(k, b). Q b) d'"
proof (cases "find_variant U s (dict_keys d)")
  case None
  with find_variant_present [OF s] have notin: "s \<notin> set (dict_keys d)" by blast
  have res: "ensure_section U s d = Inr (dict_set s [] d)"
    using None notin by (simp add: ensure_section_def dict_has_def)
  have k: "dict_keys (dict_set s [] d) = dict_keys d @ [s]"
    using notin by (simp add: dict_keys_set)
  have "filter (\<lambda>k. k \<in> set (dict_keys d @ [s])) (dict_keys d) = dict_keys d"
    by (simp add: filter_id_conv)
  moreover have "list_all (\<lambda>(k, b). Q b) (dict_set s [] d)"
    by (rule list_all_dict_set [OF Q])
  ultimately show ?thesis using res k dist notin by auto
next
  case (Some e)
  from find_variant_Some [OF Some] have e: "e \<in> set (dict_keys d)" by simp
  show ?thesis
  proof (cases "e = s")
    case True
    then have "ensure_section U s d = Inr d" using Some by (simp add: ensure_section_def)
    moreover have "filter (\<lambda>k. k \<in> set (dict_keys d)) (dict_keys d) = dict_keys d"
      by (simp add: filter_id_conv)
    ultimately show ?thesis using dist e True Q by auto
  next
    case False
    have enc: "e \<notin> set common_sections"
      using find_variant_common [OF Some s] False by blast
    from dict_pop_keys [OF e] obtain v d1 where pop: "dict_pop e d = Inr (v, d1)"
      and k1: "dict_keys d1 = remove1 e (dict_keys d)" and sub: "set d1 \<subseteq> set d"
      and ev: "(e, v) \<in> set d" by blast
    have k1f: "dict_keys d1 = filter (\<lambda>k. k \<noteq> e) (dict_keys d)"
      using k1 dist by (simp add: distinct_remove1_filter)
    have res: "ensure_section U s d = Inr (dict_set s v d1)"
      using Some False pop by (simp add: ensure_section_def)
    let ?d' = "dict_set s v d1"
    have kd: "dict_keys ?d' = (if s \<in> set (dict_keys d) then dict_keys d1 else dict_keys d1 @ [s])"
      using False by (simp add: dict_keys_set k1f)
    have setd: "set (dict_keys ?d') = insert s (set (dict_keys d) - {e})"
      using False by (auto simp: kd k1f)
    have d1: "distinct (dict_keys d1)" using dist by (simp add: k1f)
    have dd: "distinct (dict_keys ?d')" using d1 by (rule distinct_dict_set)
    have f: "filter (\<lambda>k. k \<in> set (dict_keys ?d')) (dict_keys d) = dict_keys d1"
      unfolding setd k1f using False by (intro filter_cong) auto
    have Qv: "Q v" using Q(1) ev by (auto simp: list_all_iff)
    have Q1: "list_all (\<lambda>(k, b). Q b) d1" using Q(1) sub by (auto simp: list_all_iff)
    have Q': "list_all (\<lambda>(k, b). Q b) ?d'" by (rule list_all_dict_set [OF Q1 Qv])
    have "dict_keys ?d' = filter (\<lambda>k. k \<in> set (dict_keys ?d')) (dict_keys d)
                          @ (if s \<in> set (dict_keys d) then [] else [s])"
      unfolding f using kd by simp
    moreover have "\<forall>c\<in>set common_sections. c \<in> set (dict_keys d) \<longrightarrow> c \<in> set (dict_keys ?d')"
      using enc setd by auto
    moreover have "s \<in> set (dict_keys ?d')" using setd by simp
    moreover have "set (dict_keys ?d') \<subseteq> insert s (set (dict_keys d))" using setd by auto
    ultimately show ?thesis using res dd Q' by simp
  qed
qed


lemma ensure_sections_ok:
  assumes "distinct (dict_keys d)" and "set names \<subseteq> set common_sections"
    and "distinct names" and "list_all (\<lambda>(k, b). Q b) d" and "Q []"
  shows "\<exists>d'. ensure_sections U names d = Inr d' \<and> distinct (dict_keys d') \<and>
           set names \<subseteq> set (dict_keys d') \<and>
           dict_keys d' = filter (\<lambda>k. k \<in> set (dict_keys d')) (dict_keys d)
                          @ filter (\<lambda>c. c \<notin> set (dict_keys d)) names \<and>
           (\<forall>c\<in>set common_sections. c \<in> set (dict_keys d) \<longrightarrow> c \<in> set (dict_keys d')) \<and>
           set (dict_keys d') \<subseteq> set names \<union> set (dict_keys d) \<and>
           list_all (\<lambda>(k, b). Q b) d'"
  using assms(1-4)
proof (induction names arbitrary: d)
  case Nil
  then show ?case by (simp add: filter_id_conv)
next
  case (Cons s rest)
  from Cons.prems(2) have s: "s \<in> set common_sections" and rest: "set rest \<subseteq> set common_sections"
    by simp_all
  from Cons.prems(3) have srest: "s \<notin> set rest" and drest: "distinct rest" by simp_all
  from ensure_section_ok [OF Cons.prems(1) s Cons.prems(4) assms(5), of U]
  obtain d1 where 1: "ensure_section U s d = Inr d1" "distinct (dict_keys d1)"
    "s \<in> set (dict_keys d1)"
    "dict_keys d1 = filter (\<lambda>k. k \<in> set (dict_keys d1)) (dict_keys d)
                    @ (if s \<in> set (dict_keys d) then [] else [s])"
    "\<forall>c\<in>set common_sections. c \<in> set (dict_keys d) \<longrightarrow> c \<in> set (dict_keys d1)"
    "set (dict_keys d1) \<subseteq> insert s (set (dict_keys d))"
    "list_all (\<lambda>(k, b). Q b) d1" by blast
  from Cons.IH [OF 1(2) rest drest 1(7)]
  obtain d' where 2: "ensure_sections U rest d1 = Inr d'" "distinct (dict_keys d')"
    "set rest \<subseteq> set (dict_keys d')"
    "dict_keys d' = filter (\<lambda>k. k \<in> set (dict_keys d')) (dict_keys d1)
                    @ filter (\<lambda>c. c \<notin> set (dict_keys d1)) rest"
    "\<forall>c\<in>set common_sections. c \<in> set (dict_keys d1) \<longrightarrow> c \<in> set (dict_keys d')"
    "set (dict_keys d') \<subseteq> set rest \<union> set (dict_keys d1)"
    "list_all (\<lambda>(k, b). Q b) d'" by blast
  have sd': "s \<in> set (dict_keys d')" using 1(3) 2(5) s by blast
  have a: "filter (\<lambda>k. k \<in> set (dict_keys d'))
             (filter (\<lambda>k. k \<in> set (dict_keys d1)) (dict_keys d))
           = filter (\<lambda>k. k \<in> set (dict_keys d')) (dict_keys d)"
  proof -
    have "\<And>k. k \<in> set (dict_keys d) \<Longrightarrow> k \<in> set (dict_keys d') \<Longrightarrow> k \<in> set (dict_keys d1)"
      using 2(6) rest 1(5) by blast
    then show ?thesis unfolding filter_filter by (intro filter_cong) auto
  qed
  have b: "filter (\<lambda>c. c \<notin> set (dict_keys d1)) rest = filter (\<lambda>c. c \<notin> set (dict_keys d)) rest"
    using rest 1(5,6) srest by (intro filter_cong) auto
  have keys: "dict_keys d' = filter (\<lambda>k. k \<in> set (dict_keys d')) (dict_keys d)
                @ filter (\<lambda>c. c \<notin> set (dict_keys d)) (s # rest)"
  proof (cases "s \<in> set (dict_keys d)")
    case True
    with 1(4) have "dict_keys d1 = filter (\<lambda>k. k \<in> set (dict_keys d1)) (dict_keys d)" by simp
    then have "filter (\<lambda>k. k \<in> set (dict_keys d')) (dict_keys d1)
               = filter (\<lambda>k. k \<in> set (dict_keys d')) (dict_keys d)"
      using a by simp
    then show ?thesis using 2(4) b True by simp
  next
    case False
    with 1(4) have "dict_keys d1 = filter (\<lambda>k. k \<in> set (dict_keys d1)) (dict_keys d) @ [s]" by simp
    then have "filter (\<lambda>k. k \<in> set (dict_keys d')) (dict_keys d1)
               = filter (\<lambda>k. k \<in> set (dict_keys d')) (dict_keys d) @ [s]"
      using a sd' by (metis (mono_tags, lifting) filter.simps(1,2) filter_append)
    then show ?thesis using 2(4) b False by simp
  qed
  have "\<forall>c\<in>set common_sections. c \<in> set (dict_keys d) \<longrightarrow> c \<in> set (dict_keys d')"
    using 1(5) 2(5) by blast
  moreover have "set (dict_keys d') \<subseteq> set (s # rest) \<union> set (dict_keys d)"
    using 1(6) 2(6) by auto
  moreover have "set (s # rest) \<subseteq> set (dict_keys d')" using sd' 2(3) by simp
  ultimately show ?case using 1(1) 2(1,2,7) keys by simp
qed

text \<open>The parser returns on every input, and what its result looks like.\<close>

lemma parse_cv_content_ok:
  "\<exists>D R. discovered U content = Inr D \<and> parse_cv_content U content = Inr R \<and>
         distinct (dict_keys D) \<and> distinct (dict_keys R) \<and>
         set common_sections \<subseteq> set (dict_keys R) \<and>
         dict_keys R = filter (\<lambda>k. k \<in> set (dict_keys R)) (dict_keys D)
                       @ filter (\<lambda>c. c \<notin> set (dict_keys D)) common_sections \<and>
         list_all (\<lambda>(k, b). good_body U b) R"
proof -
  from discovered_ok obtain D where D: "discovered U content = Inr D" "distinct (dict_keys D)"
    "list_all (\<lambda>(k, b). good_body U b \<and> strip b \<noteq> []) D" by blast
  from D(3) have g: "list_all (\<lambda>(k, b). good_body U b) D" by (auto simp: list_all_iff)
  have e: "good_body U []" by (simp add: good_body_def)
  from ensure_sections_ok [OF D(2) subset_refl distinct_common g e, of U]
  obtain R where "ensure_sections U common_sections D = Inr R" "distinct (dict_keys R)"
    "set common_sections \<subseteq> set (dict_keys R)"
    "dict_keys R = filter (\<lambda>k. k \<in> set (dict_keys R)) (dict_keys D)
                   @ filter (\<lambda>c. c \<notin> set (dict_keys D)) common_sections"
    "list_all (\<lambda>(k, b). good_body U b) R" by blast
  then show ?thesis using D(1,2) by (simp add: parse_cv_content_def)
qed

section \<open>Evaluation of concrete inputs\<close>

lemmas string_eval = ustr_simps startswith_def endswith_def strip_chars_def strip_def
  strip_by_def is_space_def py_lower_def py_upper_def is_ascii_def ascii_lower_def
  ascii_upper_def is_AZ_def

lemmas parser_eval = classify_def section_patterns_def bold_pattern_def upper_pattern_def
  dashed_pattern_def group1_def heading_def scan_line_def dict_has_def dict_get_def
  join_sections_def header_backfill_def drop_blank_def common_sections_def
  ensure_section_def scanned_def discovered_def parse_cv_content_def

text \<open>A text in which a section is renamed to its common name.\<close>

lemma renamed_example_discovered:
  "discovered U
     (ustr ''Name'' @ [10] @ ustr ''**Work Experience**'' @ [10] @ ustr ''a'' @ [10] @
      ustr ''**Education**'' @ [10] @ ustr ''b'') =
     Inr [(ustr ''header'', ustr ''Name''), (ustr ''work experience'', ustr ''a''),
          (ustr ''education'', ustr ''b'')]"
  by (simp add: string_eval parser_eval)

lemma renamed_example_parsed:
  "parse_cv_content U
     (ustr ''Name'' @ [10] @ ustr ''**Work Experience**'' @ [10] @ ustr ''a'' @ [10] @
      ustr ''**Education**'' @ [10] @ ustr ''b'') =
     Inr [(ustr ''header'', ustr ''Name''), (ustr ''education'', ustr ''b''),
          (ustr ''profile'', []), (ustr ''experience'', ustr ''a''),
          (ustr ''skills'', []), (ustr ''languages'', [])]"
  by (simp add: string_eval parser_eval)

section \<open>The claims about the parser's result\<close>



text \<open>
  C3. The claim asks for the keys in the order in which the sections were first met,
  with the entries added for missing common names at the end, and for a renamed
  section to keep its place. The code keeps the place of a section whose heading is
  a common name already, but a section whose heading only contains one is renamed
  by \<^verbatim>\<open>sections[section] = sections.pop(existing_section)\<close>, which removes the key
  and appends the common name. In the text below \<^verbatim>\<open>**Work Experience**\<close> is met
  before \<^verbatim>\<open>**Education**\<close>: the parser finds header, work experience and education
  in that order, and returns education before experience, with the entry added for
  profile before experience as well.
\<close>

theorem parse_cv_content_order_counterexample:
  "discovered plain_casing
     (ustr ''Name'' @ [10] @ ustr ''**Work Experience**'' @ [10] @ ustr ''a'' @ [10] @
      ustr ''**Education**'' @ [10] @ ustr ''b'') =
     Inr [(ustr ''header'', ustr ''Name''), (ustr ''work experience'', ustr ''a''),
          (ustr ''education'', ustr ''b'')] \<and>
   parse_cv_content plain_casing
     (ustr ''Name'' @ [10] @ ustr ''**Work Experience**'' @ [10] @ ustr ''a'' @ [10] @
      ustr ''**Education**'' @ [10] @ ustr ''b'') =
     Inr [(ustr ''header'', ustr ''Name''), (ustr ''education'', ustr ''b''),
          (ustr ''profile'', []), (ustr ''experience'', ustr ''a''),
          (ustr ''skills'', []), (ustr ''languages'', [])]"
  by (rule conjI [OF renamed_example_discovered renamed_example_parsed])

lemma find_SomeD: "find P xs = Some x \<Longrightarrow> x \<in> set xs \<and> P x"
  by (induction xs) (auto split: if_splits)

lemma header_backfill_blank:
  assumes dist: "distinct (dict_keys S)"
    and h: "dict_get (ustr ''header'') S = Inr h" and blank: "strip h = []"
    and f: "find (\<lambda>(k, v). strip v \<noteq> []) S = Some (k, body)"
  shows "k \<noteq> ustr ''header'' \<and>
         header_backfill S =
           Inr (dict_set k (join_nl (drop 5 (split_nl body)))
                  (dict_set (ustr ''header'') (join_nl (take 5 (split_nl body))) S))"
proof -
  from find_SomeD [OF f] have mem: "(k, body) \<in> set S" and nb: "strip body \<noteq> []" by auto
  from dict_get_distinct [OF dist mem] have gk: "dict_get k S = Inr body" .
  have ne: "k \<noteq> ustr ''header''" using gk h blank nb by auto
  have hk: "dict_has (ustr ''header'') S"
    using dict_get_Inr_keys [OF h] by (simp add: dict_has_def)
  have "header_backfill S = backfill_loop (dict_keys S) S"
    using hk h blank by (simp add: header_backfill_def)
  also have "\<dots> = Inr (dict_set k (join_nl (drop 5 (split_nl body)))
                  (dict_set (ustr ''header'') (join_nl (take 5 (split_nl body))) S))"
    using backfill_loop_find [OF dist subset_refl] f ne gk by (simp add: dict_get_set)
  finally show ?thesis using ne by simp
qed

lemma good_body_lines:
  assumes "good_body U b" "strip b \<noteq> []"
  shows "split_nl (join_nl (take (Suc n) (split_nl b))) = take (Suc n) (split_nl b)"
proof -
  from assms have ne: "b \<noteq> []" by auto
  with assms(1) have "list_all (body_line U) (split_nl b)" by (simp add: good_body_def)
  then have "\<forall>l\<in>set (take (Suc n) (split_nl b)). 10 \<notin> set l"
    by (auto simp: list_all_iff body_line_def dest: in_set_takeD)
  moreover have "take (Suc n) (split_nl b) \<noteq> []" by (cases "split_nl b") auto
  ultimately show ?thesis by (intro split_join)
qed


text \<open>A text that opens with a heading, so that the scan leaves the header empty.\<close>

lemma headless_example_scanned:
  "scanned U
     (ustr ''**Skills**'' @ [10] @ ustr ''a'' @ [10] @ ustr ''b'' @ [10] @ ustr ''c'' @ [10] @
      ustr ''d'' @ [10] @ ustr ''e'' @ [10] @ ustr ''f'' @ [10] @ ustr ''**Other**'' @ [10] @
      ustr ''g'') =
   Inr [(ustr ''header'', []),
        (ustr ''skills'', [97, 10, 98, 10, 99, 10, 100, 10, 101, 10, 102]),
        (ustr ''other'', ustr ''g'')]"
  by (simp add: string_eval parser_eval)

text \<open>What the header fallback does to the mapping left by the scan.\<close>

lemma header_backfill_step:
  assumes "scanned U content = Inr S"
  shows "\<exists>h. dict_get (ustr ''header'') S = Inr h \<and>
           (strip h \<noteq> [] \<longrightarrow> header_backfill S = Inr S) \<and>
           (strip h = [] \<and> find (\<lambda>(k, v). strip v \<noteq> []) S = None \<longrightarrow>
              header_backfill S = Inr S) \<and>
           (\<forall>k body. strip h = [] \<and> find (\<lambda>(k, v). strip v \<noteq> []) S = Some (k, body) \<longrightarrow>
              (\<exists>S'. header_backfill S = Inr S' \<and> dict_keys S' = dict_keys S \<and>
                 dict_get (ustr ''header'') S' = Inr (join_nl (take 5 (split_nl body))) \<and>
                 split_nl (join_nl (take 5 (split_nl body))) = take 5 (split_nl body) \<and>
                 dict_get k S' = Inr (join_nl (drop 5 (split_nl body))) \<and>
                 (\<forall>k'. k' \<noteq> ustr ''header'' \<and> k' \<noteq> k \<longrightarrow> dict_get k' S' = dict_get k' S)))"
proof -
  from scanned_ok [of U content] assms
  have hk: "ustr ''header'' \<in> set (dict_keys S)" and dist: "distinct (dict_keys S)"
    and good: "list_all (\<lambda>(k, b). good_body U b) S" by auto
  from dict_get_keys [OF hk] obtain h where h: "dict_get (ustr ''header'') S = Inr h" by blast
  have has: "dict_has (ustr ''header'') S" using hk by (simp add: dict_has_def)
  have 1: "strip h \<noteq> [] \<longrightarrow> header_backfill S = Inr S"
    using has h by (simp add: header_backfill_def)
  have 2: "strip h = [] \<and> find (\<lambda>(k, v). strip v \<noteq> []) S = None \<longrightarrow> header_backfill S = Inr S"
    using has h backfill_loop_find [OF dist subset_refl] by (simp add: header_backfill_def)
  have 3: "\<forall>k body. strip h = [] \<and> find (\<lambda>(k, v). strip v \<noteq> []) S = Some (k, body) \<longrightarrow>
              (\<exists>S'. header_backfill S = Inr S' \<and> dict_keys S' = dict_keys S \<and>
                 dict_get (ustr ''header'') S' = Inr (join_nl (take 5 (split_nl body))) \<and>
                 split_nl (join_nl (take 5 (split_nl body))) = take 5 (split_nl body) \<and>
                 dict_get k S' = Inr (join_nl (drop 5 (split_nl body))) \<and>
                 (\<forall>k'. k' \<noteq> ustr ''header'' \<and> k' \<noteq> k \<longrightarrow> dict_get k' S' = dict_get k' S))"
  proof (intro allI impI, elim conjE)
    fix k body
    assume blank: "strip h = []" and f: "find (\<lambda>(k, v). strip v \<noteq> []) S = Some (k, body)"
    let ?S1 = "dict_set (ustr ''header'') (join_nl (take 5 (split_nl body))) S"
    let ?S' = "dict_set k (join_nl (drop 5 (split_nl body))) ?S1"
    from header_backfill_blank [OF dist h blank f]
    have ne: "k \<noteq> ustr ''header''" and res: "header_backfill S = Inr ?S'" by simp_all
    from find_SomeD [OF f] have mem: "(k, body) \<in> set S" and nb: "strip body \<noteq> []" by auto
    from mem have kin: "k \<in> set (dict_keys S)" by (force simp: dict_keys_def)
    from mem good have gb: "good_body U body" by (auto simp: list_all_iff)
    have keys: "dict_keys ?S' = dict_keys S" using hk kin by (simp add: dict_keys_set)
    have lines: "split_nl (join_nl (take 5 (split_nl body))) = take 5 (split_nl body)"
      using good_body_lines [OF gb nb, of 4] by (simp add: eval_nat_numeral)
    have gh: "dict_get (ustr ''header'') ?S' = Inr (join_nl (take 5 (split_nl body)))"
      using ne by (simp add: dict_get_set)
    have gk: "dict_get k ?S' = Inr (join_nl (drop 5 (split_nl body)))"
      by (simp add: dict_get_set)
    have other: "\<forall>k'. k' \<noteq> ustr ''header'' \<and> k' \<noteq> k \<longrightarrow> dict_get k' ?S' = dict_get k' S"
      by (simp add: dict_get_set)
    from res keys gh lines gk other
    show "\<exists>S'. header_backfill S = Inr S' \<and> dict_keys S' = dict_keys S \<and>
                 dict_get (ustr ''header'') S' = Inr (join_nl (take 5 (split_nl body))) \<and>
                 split_nl (join_nl (take 5 (split_nl body))) = take 5 (split_nl body) \<and>
                 dict_get k S' = Inr (join_nl (drop 5 (split_nl body))) \<and>
                 (\<forall>k'. k' \<noteq> ustr ''header'' \<and> k' \<noteq> k \<longrightarrow> dict_get k' S' = dict_get k' S)"
      by (intro exI [of _ ?S'] conjI)
  qed
  from h 1 2 3 show ?thesis by (intro exI [of _ h] conjI)
qed


section \<open>The claims about the classification of a line\<close>

lemma classify_starred:
  "startswith line (ustr ''**'') \<Longrightarrow> endswith line (ustr ''**'') \<Longrightarrow>
   classify U line = (True, Some (py_lower U (strip (strip_chars (ustr ''*'') line))))"
  by (simp add: classify_def)

lemma starred_example_scan:
  "scan_line U (ustr ''header'', [(ustr ''header'', [])]) (ustr ''****'') =
     Inr (ustr ''header'', [(ustr ''header'', [ustr ''****''])])"
  by (simp add: string_eval parser_eval)

lemma starred_example_heading: "heading (classify U (ustr ''****'')) = None"
  by (simp add: string_eval parser_eval)

lemma starred_example_marks:
  "startswith (strip (ustr ''****'')) (ustr ''**'') \<and> endswith (strip (ustr ''****'')) (ustr ''**'')"
  by (simp add: string_eval)

lemma bold_example_scan:
  "scan_line U (ustr ''header'', [(ustr ''header'', [])]) (ustr '' **Key Skills** '') =
     Inr (ustr ''key skills'', [(ustr ''header'', []), (ustr ''key skills'', [])])"
  by (simp add: string_eval parser_eval)

lemma bold_example_marks:
  "startswith (strip (ustr '' **Key Skills** '')) (ustr ''**'') \<and>
   endswith (strip (ustr '' **Key Skills** '')) (ustr ''**'')"
  by (simp add: string_eval)

lemma bold_example_name:
  "py_lower U (strip (strip_chars (ustr ''*'') (strip (ustr '' **Key Skills** '')))) = ustr ''key skills''"
  by (simp add: string_eval)

text \<open>
  C6, as the claim states it, fails. The line \<^verbatim>\<open>****\<close> starts and ends with
  \<^verbatim>\<open>**\<close>, but with the asterisks stripped nothing is left, and the test
  \<^verbatim>\<open>is_section_header and section_name\<close> sends the line to the body of the
  active section: it is not treated as a heading.
\<close>

theorem starred_line_counterexample:
  "(startswith (strip (ustr ''****'')) (ustr ''**'') \<and>
    endswith (strip (ustr ''****'')) (ustr ''**'')) \<and>
   heading (classify plain_casing (ustr ''****'')) = None \<and>
   scan_line plain_casing (ustr ''header'', [(ustr ''header'', [])]) (ustr ''****'') =
     Inr (ustr ''header'', [(ustr ''header'', [ustr ''****''])])"
  by (rule conjI [OF starred_example_marks conjI [OF starred_example_heading starred_example_scan]])

text \<open>
  C6, amended. For a line whose stripped form starts and ends with \<^verbatim>\<open>**\<close> the
  heading text is that form with the asterisks at both ends removed, stripped of
  blanks and lower-cased, whatever the three patterns found. When this text is not
  empty the line opens the section of that name (a new key with an empty body, or
  the existing key) and is appended to no body; when it is empty the line is
  appended to the body of the active section.
\<close>

theorem starred_line_heading:
  assumes "startswith (strip raw) (ustr ''**'')" and "endswith (strip raw) (ustr ''**'')"
  shows "classify U (strip raw) =
           (True, Some (py_lower U (strip (strip_chars (ustr ''*'') (strip raw))))) \<and>
         (py_lower U (strip (strip_chars (ustr ''*'') (strip raw))) \<noteq> [] \<longrightarrow>
            scan_line U (current_section, sections) raw =
              Inr (py_lower U (strip (strip_chars (ustr ''*'') (strip raw))),
                   if dict_has (py_lower U (strip (strip_chars (ustr ''*'') (strip raw)))) sections
                   then sections
                   else dict_set (py_lower U (strip (strip_chars (ustr ''*'') (strip raw)))) []
                          sections)) \<and>
         (py_lower U (strip (strip_chars (ustr ''*'') (strip raw))) = [] \<longrightarrow>
            scan_line U (current_section, sections) raw =
              (case dict_get current_section sections of
                 Inl e \<Rightarrow> Inl e
               | Inr body \<Rightarrow>
                   Inr (current_section, dict_set current_section (body @ [strip raw]) sections)))"
proof -
  from assms(1) have ne: "strip raw \<noteq> []" by (auto simp: startswith_def ustr_simps)
  note c = classify_starred [OF assms, of U]
  show ?thesis using ne c by (simp add: scan_line_def heading_def Let_def)
qed

theorem starred_line_heading_witness:
  "(startswith (strip (ustr '' **Key Skills** '')) (ustr ''**'') \<and>
    endswith (strip (ustr '' **Key Skills** '')) (ustr ''**'')) \<and>
   classify plain_casing (strip (ustr '' **Key Skills** '')) = (True, Some (ustr ''key skills'')) \<and>
   scan_line plain_casing (ustr ''header'', [(ustr ''header'', [])]) (ustr '' **Key Skills** '') =
     Inr (ustr ''key skills'', [(ustr ''header'', []), (ustr ''key skills'', [])])"
proof -
  note m = bold_example_marks
  note n = bold_example_name [of plain_casing]
  from starred_line_heading [OF conjunct1 [OF m] conjunct2 [OF m], of plain_casing
      "ustr ''header''" "[(ustr ''header'', [])]", unfolded n]
  have c: "classify plain_casing (strip (ustr '' **Key Skills** '')) = (True, Some (ustr ''key skills''))"
    by (elim conjE)
  show ?thesis by (rule conjI [OF m conjI [OF c bold_example_scan]])
qed

lemma first_down_None_iff:
  "first_down f lo k = None \<longleftrightarrow> (\<forall>n. lo \<le> n \<and> n \<le> k \<longrightarrow> f n = None)"
proof (induction f lo k rule: first_down.induct)
  case (1 f lo k)
  show ?case
  proof (cases "k < lo")
    case True
    then show ?thesis by (subst first_down.simps) auto
  next
    case False
    show ?thesis
    proof (cases "f k")
      case (Some r)
      then have "first_down f lo k = Some r" using False by (subst first_down.simps) simp
      moreover have "lo \<le> k \<and> k \<le> k \<and> f k \<noteq> None" using False Some by simp
      ultimately show ?thesis by (metis option.distinct(1))
    next
      case None
      show ?thesis
      proof (cases "k = 0")
        case True
        then show ?thesis using False None by (subst first_down.simps) auto
      next
        case k: False
        have "first_down f lo k = first_down f lo (k - 1)"
          using False None k by (subst first_down.simps) simp
        also have "\<dots> = None \<longleftrightarrow> (\<forall>n. lo \<le> n \<and> n \<le> k - 1 \<longrightarrow> f n = None)"
          using 1 [OF False None k] .
        also have "\<dots> \<longleftrightarrow> (\<forall>n. lo \<le> n \<and> n \<le> k \<longrightarrow> f n = None)"
        proof -
          have "\<And>n. n \<le> k \<longleftrightarrow> n \<le> k - 1 \<or> n = k" using k by auto
          then show ?thesis using None by auto
        qed
        finally show ?thesis .
      qed
    qed
  qed
qed



lemma match_Rep_None_iff:
  "match_items (Rep cls lo hi cap # rest) s = None \<longleftrightarrow>
     (\<forall>n. lo \<le> n \<and> n \<le> (case hi of None \<Rightarrow> length (takeWhile cls s)
                                | Some h \<Rightarrow> min h (length (takeWhile cls s))) \<longrightarrow>
          match_items rest (drop n s) = None)"
proof -
  let ?k = "case hi of None \<Rightarrow> length (takeWhile cls s) | Some h \<Rightarrow> min h (length (takeWhile cls s))"
  let ?f = "\<lambda>n. case match_items rest (drop n s) of
                   None \<Rightarrow> None
                 | Some (gs, r) \<Rightarrow> Some (if cap then take n s # gs else gs, r)"
  have f: "\<And>n. ?f n = None \<longleftrightarrow> match_items rest (drop n s) = None"
    by (simp split: option.splits)
  have eq: "match_items (Rep cls lo hi cap # rest) s = first_down ?f lo ?k"
    by (simp only: match_items.simps item.case Let_def)
  show ?thesis unfolding eq first_down_None_iff f by (rule refl)
qed

















text \<open>The header entry is the first entry of the mapping from the start to the end.\<close>

lemma dict_set_head: "d \<noteq> [] \<Longrightarrow> dict_set k v d \<noteq> [] \<and> fst (hd (dict_set k v d)) = fst (hd d)"
  by (cases d) (auto split: if_splits)

lemma scan_line_head:
  "scan_line U (cur, secs) raw = Inr (cur', secs') \<Longrightarrow> secs \<noteq> [] \<Longrightarrow>
   secs' \<noteq> [] \<and> fst (hd secs') = fst (hd secs)"
  by (auto simp: scan_line_def Let_def dict_set_head split: if_splits option.splits sum.splits)

lemma scan_lines_head:
  "scan_lines U (cur, secs) ls = Inr (cur', secs') \<Longrightarrow> secs \<noteq> [] \<Longrightarrow>
   secs' \<noteq> [] \<and> fst (hd secs') = fst (hd secs)"
proof (induction ls arbitrary: cur secs)
  case Nil
  then show ?case by simp
next
  case (Cons raw rest)
  from Cons.prems(1) obtain c1 s1 where 1: "scan_line U (cur, secs) raw = Inr (c1, s1)"
    and 2: "scan_lines U (c1, s1) rest = Inr (cur', secs')"
    by (auto split: sum.splits)
  from scan_line_head [OF 1 Cons.prems(2)] have "s1 \<noteq> []" "fst (hd s1) = fst (hd secs)" by simp_all
  with Cons.IH [OF 2] show ?case by simp
qed

lemma scanned_head: "scanned U content = Inr S \<Longrightarrow> \<exists>b rest. S = (ustr ''header'', b) # rest"
proof -
  assume "scanned U content = Inr S"
  then obtain cur secs where
    sc: "scan_lines U (ustr ''header'', [(ustr ''header'', [])]) (split_nl content) = Inr (cur, secs)"
    and S: "S = join_sections secs"
    by (auto simp: scanned_def split: sum.splits)
  from scan_lines_head [OF sc] have "secs \<noteq> []" "fst (hd secs) = ustr ''header''" by simp_all
  then obtain ls rest where "secs = (ustr ''header'', ls) # rest" by (cases secs) auto
  then show ?thesis using S by (simp add: join_sections_def)
qed

lemma dict_pop_other_head:
  "k' \<noteq> e \<Longrightarrow> dict_pop e ((k', v') # d) = Inr (v, d1) \<Longrightarrow> \<exists>d0. d1 = (k', v') # d0"
  by (auto split: sum.splits)

lemma ensure_section_head:
  assumes "ensure_section U s ((ustr ''header'', hb) # d) = Inr d'" and "s \<in> set common_sections"
  shows "\<exists>d0. d' = (ustr ''header'', hb) # d0"
proof -
  have hc: "ustr ''header'' \<in> set common_sections" by (simp add: common_sections_def)
  let ?d = "(ustr ''header'', hb) # d"
  show ?thesis
  proof (cases "find_variant U s (dict_keys ?d)")
    case None
    have "s \<noteq> ustr ''header''"
      using find_variant_present [OF assms(2), of "dict_keys ?d" U] None by auto
    then show ?thesis using assms(1) None by (auto simp: ensure_section_def split: if_splits)
  next
    case (Some e)
    show ?thesis
    proof (cases "e = s")
      case True
      then have "d' = ?d" using assms(1) Some by (simp add: ensure_section_def)
      then show ?thesis by blast
    next
      case False
      have en: "e \<noteq> ustr ''header''"
        using find_variant_common [OF Some assms(2)] False hc by blast
      from assms(1) Some False obtain v d1 where pop: "dict_pop e ?d = Inr (v, d1)"
        and d': "d' = dict_set s v d1"
        by (auto simp: ensure_section_def split: sum.splits)
      from dict_pop_other_head [OF en [symmetric] pop] obtain d0 where d1: "d1 = (ustr ''header'', hb) # d0"
        by blast
      have sn: "s \<noteq> ustr ''header''"
      proof
        assume "s = ustr ''header''"
        then have "find_variant U s (dict_keys ?d) = Some s"
          using common_ascii [OF hc, of U] py_in_refl by simp
        with Some False show False by simp
      qed
      show ?thesis using d' d1 sn by simp
    qed
  qed
qed

lemma ensure_sections_head:
  "ensure_sections U names ((ustr ''header'', hb) # d) = Inr d' \<Longrightarrow>
   set names \<subseteq> set common_sections \<Longrightarrow> \<exists>d0. d' = (ustr ''header'', hb) # d0"
proof (induction names arbitrary: d)
  case Nil
  then have "d' = (ustr ''header'', hb) # d" by simp
  then show ?case by blast
next
  case (Cons s rest)
  from Cons.prems(1) obtain d1 where 1: "ensure_section U s ((ustr ''header'', hb) # d) = Inr d1"
    and 2: "ensure_sections U rest d1 = Inr d'"
    by (auto split: sum.splits)
  from Cons.prems(2) have s: "s \<in> set common_sections" and r: "set rest \<subseteq> set common_sections"
    by simp_all
  from ensure_section_head [OF 1 s] obtain d0 where "d1 = (ustr ''header'', hb) # d0" by blast
  with Cons.IH [OF _ r] 2 show ?case by blast
qed

lemma ensure_sections_empty:
  "ensure_sections U common_sections [] =
     Inr [(ustr ''header'', []), (ustr ''profile'', []), (ustr ''experience'', []),
          (ustr ''education'', []), (ustr ''skills'', []), (ustr ''languages'', [])]"
  by (simp add: string_eval parser_eval)

lemma join_nl_Cons_set: "set l \<subseteq> set (join_nl (l # ls))"
  by (cases ls) auto

lemma good_body_take_nonblank:
  assumes "good_body U b" and "strip b \<noteq> []"
  shows "strip (join_nl (take (Suc n) (split_nl b))) \<noteq> []"
proof -
  from assms have "b \<noteq> []" by auto
  with assms(1) have all: "list_all (body_line U) (split_nl b)" by (simp add: good_body_def)
  obtain l ls where sp: "split_nl b = l # ls" by (cases "split_nl b") auto
  with all have bl: "body_line U l" by simp
  then have ne: "l \<noteq> []" and st: "strip l = l" by (simp_all add: body_line_def)
  from ne st have "strip l \<noteq> []" by simp
  from strip_hd [OF this] st have "\<not> is_space (hd l)" by simp
  moreover have "hd l \<in> set (join_nl (take (Suc n) (split_nl b)))"
    using sp ne join_nl_Cons_set [of l "take n ls"] by auto
  ultimately show ?thesis by (auto simp: strip_empty_iff)
qed

lemma drop_blank_find_None: "find (\<lambda>(k, v). strip v \<noteq> []) S = None \<Longrightarrow> drop_blank S = []"
  by (auto simp: drop_blank_def find_None_iff filter_empty_conv)

lemma header_first_get:
  "dict_get (ustr ''header'') ((ustr ''header'', hb) # d) = Inr hb"
  by (simp add: dict_get_def)

text \<open>
  When the header body is not blank after the fallback, it is the header body of
  the result.
\<close>

lemma parse_header_kept:
  assumes S': "dict_keys S' = ustr ''header'' # ks" and h: "dict_get (ustr ''header'') S' = Inr hb"
    and nb: "strip hb \<noteq> []"
    and R: "ensure_sections U common_sections (drop_blank S') = Inr R"
  shows "dict_get (ustr ''header'') R = Inr hb"
proof -
  from S' obtain v rest where Sd: "S' = (ustr ''header'', v) # rest" by (cases S') auto
  with h have "v = hb" by (simp add: dict_get_def)
  with Sd nb have "drop_blank S' = (ustr ''header'', hb) # drop_blank rest"
    by (simp add: drop_blank_def)
  with R ensure_sections_head [of U common_sections hb "drop_blank rest" R]
  obtain d0 where "R = (ustr ''header'', hb) # d0" by auto
  then show ?thesis by (simp add: header_first_get)
qed


lemma headless_example_parsed:
  "parse_cv_content U
     (ustr ''**Skills**'' @ [10] @ ustr ''a'' @ [10] @ ustr ''b'' @ [10] @ ustr ''c'' @ [10] @
      ustr ''d'' @ [10] @ ustr ''e'' @ [10] @ ustr ''f'' @ [10] @ ustr ''**Other**'' @ [10] @
      ustr ''g'') =
   Inr [(ustr ''header'', [97, 10, 98, 10, 99, 10, 100, 10, 101]),
        (ustr ''skills'', [102]), (ustr ''other'', ustr ''g''),
        (ustr ''profile'', []), (ustr ''experience'', []), (ustr ''education'', []),
        (ustr ''languages'', [])]"
  by (simp add: string_eval parser_eval)

text \<open>
  C4. The parser runs the header fallback on the mapping left by the scan, drops the
  blank sections of its result and completes the common names. When the scan ends
  with a blank header body, the first five lines of the first section whose body is
  not blank (all its lines when it has fewer) become the header body, that section
  keeps the lines from the sixth on, the keys, their order and every other body stay
  as they were, and the header of the mapping that the parser returns holds those
  five lines. When the header body is not blank after the scan the fallback
  changes no body, and the header of the returned mapping is that body. When no
  section has a body the fallback changes nothing and the parser returns the six
  common names with empty bodies.
\<close>

theorem parse_cv_content_header_fallback:
  "\<exists>S h S' R.
     scanned U content = Inr S \<and> dict_get (ustr ''header'') S = Inr h \<and>
     header_backfill S = Inr S' \<and> discovered U content = Inr (drop_blank S') \<and>
     parse_cv_content U content = Inr R \<and>
     ensure_sections U common_sections (drop_blank S') = Inr R \<and>
     (strip h \<noteq> [] \<longrightarrow> S' = S \<and> dict_get (ustr ''header'') R = Inr h) \<and>
     (strip h = [] \<and> find (\<lambda>(k, v). strip v \<noteq> []) S = None \<longrightarrow>
        S' = S \<and>
        R = [(ustr ''header'', []), (ustr ''profile'', []), (ustr ''experience'', []),
             (ustr ''education'', []), (ustr ''skills'', []), (ustr ''languages'', [])]) \<and>
     (\<forall>k body. strip h = [] \<and> find (\<lambda>(k, v). strip v \<noteq> []) S = Some (k, body) \<longrightarrow>
        dict_keys S' = dict_keys S \<and>
        dict_get (ustr ''header'') S' = Inr (join_nl (take 5 (split_nl body))) \<and>
        split_nl (join_nl (take 5 (split_nl body))) = take 5 (split_nl body) \<and>
        dict_get k S' = Inr (join_nl (drop 5 (split_nl body))) \<and>
        (\<forall>k'. k' \<noteq> ustr ''header'' \<and> k' \<noteq> k \<longrightarrow> dict_get k' S' = dict_get k' S) \<and>
        dict_get (ustr ''header'') R = Inr (join_nl (take 5 (split_nl body))))"
proof -
  from scanned_ok [of U content] obtain S where S: "scanned U content = Inr S"
    and dist: "distinct (dict_keys S)" and good: "list_all (\<lambda>(k, b). good_body U b) S"
    by (elim exE conjE)
  from scanned_head [OF S] obtain h rest where Sd: "S = (ustr ''header'', h) # rest" by blast
  then have h: "dict_get (ustr ''header'') S = Inr h" by (simp add: header_first_get)
  from header_backfill_ok [OF dist good] obtain S' where S': "header_backfill S = Inr S'"
    and keys: "dict_keys S' = dict_keys S" by (elim exE conjE)
  have D: "discovered U content = Inr (drop_blank S')" using S S' by (simp add: discovered_def)
  from parse_cv_content_ok [of U content] obtain R where R: "parse_cv_content U content = Inr R"
    by (elim exE conjE)
  with D have E: "ensure_sections U common_sections (drop_blank S') = Inr R"
    by (simp add: parse_cv_content_def)
  have kS': "dict_keys S' = ustr ''header'' # dict_keys rest" using keys Sd by simp
  from header_backfill_step [OF S] obtain h0 where h0: "dict_get (ustr ''header'') S = Inr h0"
    and c1: "strip h0 \<noteq> [] \<longrightarrow> header_backfill S = Inr S"
    and c2: "strip h0 = [] \<and> find (\<lambda>(k, v). strip v \<noteq> []) S = None \<longrightarrow> header_backfill S = Inr S"
    and c3: "\<forall>k body. strip h0 = [] \<and> find (\<lambda>(k, v). strip v \<noteq> []) S = Some (k, body) \<longrightarrow>
              (\<exists>S'. header_backfill S = Inr S' \<and> dict_keys S' = dict_keys S \<and>
                 dict_get (ustr ''header'') S' = Inr (join_nl (take 5 (split_nl body))) \<and>
                 split_nl (join_nl (take 5 (split_nl body))) = take 5 (split_nl body) \<and>
                 dict_get k S' = Inr (join_nl (drop 5 (split_nl body))) \<and>
                 (\<forall>k'. k' \<noteq> ustr ''header'' \<and> k' \<noteq> k \<longrightarrow> dict_get k' S' = dict_get k' S))"
    by (elim exE conjE)
  from h h0 have hh: "h0 = h" by simp
  have 1: "strip h \<noteq> [] \<longrightarrow> S' = S \<and> dict_get (ustr ''header'') R = Inr h"
  proof
    assume nb: "strip h \<noteq> []"
    with c1 hh S' have eq: "S' = S" by simp
    with h have "dict_get (ustr ''header'') S' = Inr h" by simp
    from parse_header_kept [OF kS' this nb E] eq
    show "S' = S \<and> dict_get (ustr ''header'') R = Inr h" by simp
  qed
  have 2: "strip h = [] \<and> find (\<lambda>(k, v). strip v \<noteq> []) S = None \<longrightarrow>
        S' = S \<and>
        R = [(ustr ''header'', []), (ustr ''profile'', []), (ustr ''experience'', []),
             (ustr ''education'', []), (ustr ''skills'', []), (ustr ''languages'', [])]"
  proof
    assume a: "strip h = [] \<and> find (\<lambda>(k, v). strip v \<noteq> []) S = None"
    with c2 hh S' have eq: "S' = S" by simp
    from a have "drop_blank S = []" by (simp add: drop_blank_find_None)
    with E eq have "ensure_sections U common_sections [] = Inr R" by simp
    with ensure_sections_empty [of U] eq
    show "S' = S \<and>
        R = [(ustr ''header'', []), (ustr ''profile'', []), (ustr ''experience'', []),
             (ustr ''education'', []), (ustr ''skills'', []), (ustr ''languages'', [])]"
      by simp
  qed
  have 3: "\<forall>k body. strip h = [] \<and> find (\<lambda>(k, v). strip v \<noteq> []) S = Some (k, body) \<longrightarrow>
        dict_keys S' = dict_keys S \<and>
        dict_get (ustr ''header'') S' = Inr (join_nl (take 5 (split_nl body))) \<and>
        split_nl (join_nl (take 5 (split_nl body))) = take 5 (split_nl body) \<and>
        dict_get k S' = Inr (join_nl (drop 5 (split_nl body))) \<and>
        (\<forall>k'. k' \<noteq> ustr ''header'' \<and> k' \<noteq> k \<longrightarrow> dict_get k' S' = dict_get k' S) \<and>
        dict_get (ustr ''header'') R = Inr (join_nl (take 5 (split_nl body)))"
  proof (intro allI impI)
    fix k body
    assume a: "strip h = [] \<and> find (\<lambda>(k, v). strip v \<noteq> []) S = Some (k, body)"
    with c3 [rule_format, of k body] hh obtain S'' where s: "header_backfill S = Inr S''"
      and p: "dict_keys S'' = dict_keys S"
        "dict_get (ustr ''header'') S'' = Inr (join_nl (take 5 (split_nl body)))"
        "split_nl (join_nl (take 5 (split_nl body))) = take 5 (split_nl body)"
        "dict_get k S'' = Inr (join_nl (drop 5 (split_nl body)))"
        "\<forall>k'. k' \<noteq> ustr ''header'' \<and> k' \<noteq> k \<longrightarrow> dict_get k' S'' = dict_get k' S"
      by auto
    from s S' have eq: "S'' = S'" by simp
    from a find_SomeD [of "\<lambda>(k, v). strip v \<noteq> []" S "(k, body)"]
    have mem: "(k, body) \<in> set S" and nb: "strip body \<noteq> []" by auto
    from mem good have gb: "good_body U body" by (auto simp: list_all_iff)
    have nbh: "strip (join_nl (take 5 (split_nl body))) \<noteq> []"
      using good_body_take_nonblank [OF gb nb, of 4] by (simp add: eval_nat_numeral)
    from parse_header_kept [OF kS' p(2) [unfolded eq] nbh E]
    have "dict_get (ustr ''header'') R = Inr (join_nl (take 5 (split_nl body)))" .
    with p [unfolded eq]
    show "dict_keys S' = dict_keys S \<and>
        dict_get (ustr ''header'') S' = Inr (join_nl (take 5 (split_nl body))) \<and>
        split_nl (join_nl (take 5 (split_nl body))) = take 5 (split_nl body) \<and>
        dict_get k S' = Inr (join_nl (drop 5 (split_nl body))) \<and>
        (\<forall>k'. k' \<noteq> ustr ''header'' \<and> k' \<noteq> k \<longrightarrow> dict_get k' S' = dict_get k' S) \<and>
        dict_get (ustr ''header'') R = Inr (join_nl (take 5 (split_nl body)))"
      by (intro conjI)
  qed
  from S h S' D R E 1 2 3 show ?thesis by (intro exI [of _ S] exI [of _ h] exI [of _ S'] exI [of _ R] conjI)
qed


theorem parse_cv_content_header_fallback_witness:
  "scanned plain_casing
     (ustr ''**Skills**'' @ [10] @ ustr ''a'' @ [10] @ ustr ''b'' @ [10] @ ustr ''c'' @ [10] @
      ustr ''d'' @ [10] @ ustr ''e'' @ [10] @ ustr ''f'' @ [10] @ ustr ''**Other**'' @ [10] @
      ustr ''g'') =
   Inr [(ustr ''header'', []),
        (ustr ''skills'', [97, 10, 98, 10, 99, 10, 100, 10, 101, 10, 102]),
        (ustr ''other'', ustr ''g'')] \<and>
   find (\<lambda>(k, v). strip v \<noteq> [])
        [(ustr ''header'', []),
         (ustr ''skills'', [97, 10, 98, 10, 99, 10, 100, 10, 101, 10, 102]),
         (ustr ''other'', ustr ''g'')] =
     Some (ustr ''skills'', [97, 10, 98, 10, 99, 10, 100, 10, 101, 10, 102]) \<and>
   (\<exists>R. parse_cv_content plain_casing
     (ustr ''**Skills**'' @ [10] @ ustr ''a'' @ [10] @ ustr ''b'' @ [10] @ ustr ''c'' @ [10] @
      ustr ''d'' @ [10] @ ustr ''e'' @ [10] @ ustr ''f'' @ [10] @ ustr ''**Other**'' @ [10] @
      ustr ''g'') = Inr R \<and>
      dict_get (ustr ''header'') R = Inr [97, 10, 98, 10, 99, 10, 100, 10, 101]) \<and>
   parse_cv_content plain_casing
     (ustr ''**Skills**'' @ [10] @ ustr ''a'' @ [10] @ ustr ''b'' @ [10] @ ustr ''c'' @ [10] @
      ustr ''d'' @ [10] @ ustr ''e'' @ [10] @ ustr ''f'' @ [10] @ ustr ''**Other**'' @ [10] @
      ustr ''g'') =
   Inr [(ustr ''header'', [97, 10, 98, 10, 99, 10, 100, 10, 101]),
        (ustr ''skills'', [102]), (ustr ''other'', ustr ''g''),
        (ustr ''profile'', []), (ustr ''experience'', []), (ustr ''education'', []),
        (ustr ''languages'', [])]"
proof -
  let ?inp = "ustr ''**Skills**'' @ [10] @ ustr ''a'' @ [10] @ ustr ''b'' @ [10] @ ustr ''c'' @ [10] @
      ustr ''d'' @ [10] @ ustr ''e'' @ [10] @ ustr ''f'' @ [10] @ ustr ''**Other**'' @ [10] @
      ustr ''g''"
  let ?body = "[97, 10, 98, 10, 99, 10, 100, 10, 101, 10, 102] :: ustring"
  let ?S = "[(ustr ''header'', []), (ustr ''skills'', ?body), (ustr ''other'', ustr ''g'')]"
  have sc: "scanned plain_casing ?inp = Inr ?S" by (rule headless_example_scanned)
  have f: "find (\<lambda>(k, v). strip v \<noteq> []) ?S = Some (ustr ''skills'', ?body)"
    by (simp add: string_eval)
  from parse_cv_content_header_fallback [of plain_casing ?inp]
  obtain S h S' R where S: "scanned plain_casing ?inp = Inr S"
    and h: "dict_get (ustr ''header'') S = Inr h"
    and R: "parse_cv_content plain_casing ?inp = Inr R"
    and step: "\<forall>k body. strip h = [] \<and> find (\<lambda>(k, v). strip v \<noteq> []) S = Some (k, body) \<longrightarrow>
        dict_keys S' = dict_keys S \<and>
        dict_get (ustr ''header'') S' = Inr (join_nl (take 5 (split_nl body))) \<and>
        split_nl (join_nl (take 5 (split_nl body))) = take 5 (split_nl body) \<and>
        dict_get k S' = Inr (join_nl (drop 5 (split_nl body))) \<and>
        (\<forall>k'. k' \<noteq> ustr ''header'' \<and> k' \<noteq> k \<longrightarrow> dict_get k' S' = dict_get k' S) \<and>
        dict_get (ustr ''header'') R = Inr (join_nl (take 5 (split_nl body)))"
    by (elim exE conjE)
  from S sc have eq: "S = ?S" by simp
  from h [unfolded eq] have h0: "strip h = []" by (auto simp: dict_get_def)
  note r = step [rule_format, OF conjI [OF h0 f [folded eq]]]
  note g = r [THEN conjunct2, THEN conjunct2, THEN conjunct2, THEN conjunct2, THEN conjunct2]
  have a: "join_nl (take 5 (split_nl ?body)) = [97, 10, 98, 10, 99, 10, 100, 10, 101]" by simp
  from R g [unfolded a]
  have ex: "\<exists>R. parse_cv_content plain_casing ?inp = Inr R \<and>
      dict_get (ustr ''header'') R = Inr [97, 10, 98, 10, 99, 10, 100, 10, 101]"
    by (intro exI [of _ R] conjI)
  show ?thesis by (rule conjI [OF sc conjI [OF f conjI [OF ex headless_example_parsed]]])
qed

lemma match_Rep_NoneI:
  assumes "\<And>n. lo \<le> n \<Longrightarrow> n \<le> length (takeWhile cls s) \<Longrightarrow>
             (case hi of None \<Rightarrow> True | Some h \<Rightarrow> n \<le> h) \<Longrightarrow>
             match_items rest (drop n s) = None"
  shows "match_items (Rep cls lo hi cap # rest) s = None"
  unfolding match_Rep_None_iff using assms by (cases hi) auto

lemma blank_run_no_match:
  assumes "c = 10 \<longrightarrow> s \<noteq> [] \<and> \<not> is_space (hd s)"
  shows "match_items blank_run_pattern (c # s) = None"
  unfolding blank_run_pattern_def
proof (rule match_Rep_NoneI)
  fix n :: nat
  assume n: "1 \<le> n" "n \<le> length (takeWhile (\<lambda>c. c = 10) (c # s))"
    "case Some 1 of None \<Rightarrow> True | Some h \<Rightarrow> n \<le> h"
  from n(1,3) have n1: "n = 1" by simp
  from n(2) n1 have c: "c = 10" by (auto split: if_splits)
  with assms obtain d t where s: "s = d # t" and d: "\<not> is_space d" by (cases s) auto
  from d have d10: "d \<noteq> 10" by (auto simp: is_space_def)
  have "match_items [Rep is_space 0 None False, Rep (\<lambda>c. c = 10) 1 (Some 1) False] s = None"
  proof (rule match_Rep_NoneI)
    fix m :: nat
    assume "m \<le> length (takeWhile is_space s)"
    with s d have m0: "m = 0" by simp
    have "match_items [Rep (\<lambda>c. c = 10) 1 (Some 1) False] s = None"
    proof (rule match_Rep_NoneI)
      fix j :: nat
      assume "1 \<le> j" "j \<le> length (takeWhile (\<lambda>c. c = 10) s)"
      with s d10 have False by simp
      then show "match_items [] (drop j s) = None" ..
    qed
    with m0 show "match_items [Rep (\<lambda>c. c = 10) 1 (Some 1) False] (drop m s) = None"
      by (simp only: drop_0)
  qed
  with n1 show "match_items [Rep is_space 0 None False, Rep (\<lambda>c. c = 10) 1 (Some 1) False]
                  (drop n (c # s)) = None"
    by (simp only: One_nat_def drop_Suc_Cons drop_0)
qed

lemma re_split_no_blank_run:
  "no_blank_run s \<Longrightarrow> re_split blank_run_pattern acc s = [acc @ s]"
proof (induction s arbitrary: acc)
  case Nil
  then show ?case by simp
next
  case (Cons c s)
  from Cons.prems have a: "c = 10 \<longrightarrow> s \<noteq> [] \<and> \<not> is_space (hd s)" and b: "no_blank_run s"
    by simp_all
  from blank_run_no_match [OF a] Cons.IH [OF b, of "acc @ [c]"] show ?case by simp
qed

lemma no_blank_run_line: "10 \<notin> set l \<Longrightarrow> no_blank_run l"
  by (induction l) auto

lemma no_blank_run_append:
  "10 \<notin> set l \<Longrightarrow> r \<noteq> [] \<Longrightarrow> \<not> is_space (hd r) \<Longrightarrow> no_blank_run r \<Longrightarrow>
   no_blank_run (l @ 10 # r)"
  by (induction l) auto

lemma body_line_hd: "body_line U l \<Longrightarrow> l \<noteq> [] \<and> \<not> is_space (hd l) \<and> 10 \<notin> set l"
proof -
  assume b: "body_line U l"
  then have ne: "l \<noteq> []" and st: "strip l = l" and nl: "10 \<notin> set l" by (simp_all add: body_line_def)
  from ne st have "strip l \<noteq> []" by simp
  from strip_hd [OF this] st ne nl show ?thesis by simp
qed

lemma no_blank_run_join:
  "list_all (body_line U) ls \<Longrightarrow> no_blank_run (join_nl ls)"
proof (induction ls rule: induct_list012)
  case 1
  then show ?case by simp
next
  case (2 l)
  then show ?case using body_line_hd [of U l] by (simp add: no_blank_run_line)
next
  case (3 l l' ls)
  from "3.prems" have l: "body_line U l" and l': "body_line U l'" and r: "list_all (body_line U) (l' # ls)"
    by simp_all
  from "3.IH"(2) [OF r] have n: "no_blank_run (join_nl (l' # ls))" .
  from body_line_hd [OF l'] have h: "join_nl (l' # ls) \<noteq> []" "\<not> is_space (hd (join_nl (l' # ls)))"
    by (cases ls; simp)+
  from body_line_hd [OF l] have "10 \<notin> set l" by simp
  from no_blank_run_append [OF this h n] show ?case by simp
qed

text \<open>A body of the parser is one block for the renderer.\<close>

lemma split_items_good_body: "good_body U b \<Longrightarrow> split_items b = [b]"
proof (cases "b = []")
  case True
  then show ?thesis by (simp add: split_items_def)
next
  case False
  assume "good_body U b"
  with False have "list_all (body_line U) (split_nl b)" by (simp add: good_body_def)
  from no_blank_run_join [OF this] have "no_blank_run b" by (simp add: join_split)
  from re_split_no_blank_run [OF this, of "[]"] show ?thesis by (simp add: split_items_def)
qed

section \<open>The renderer on the bodies of the parser\<close>

lemma take1_truncate: "take 1 (truncate_line l) = take 1 l"
  by (simp add: truncate_line_def max_line_length_def)

lemma bullet_truncate: "is_bullet_line (truncate_line l) = is_bullet_line l"
  using take1_truncate [of l] by (simp add: is_bullet_line_def startswith_def ustr_simps)

lemma bullet_nonempty: "is_bullet_line l \<Longrightarrow> l \<noteq> []"
  by (auto simp: is_bullet_line_def startswith_def ustr_simps)

text \<open>One line of a block: a blank line gives no call, any other line its calls.\<close>

lemma render_line_eq:
  "render_line raw = Inr (if strip raw = [] then [] else line_cmds (strip raw))"
proof (cases "strip raw = []")
  case True
  then show ?thesis by (simp add: render_line_def)
next
  case False
  let ?t = "truncate_line (strip raw)"
  show ?thesis
  proof (cases "is_bullet_line (strip raw)")
    case nb: False
    then show ?thesis using False
      by (simp add: render_line_def Let_def line_cmds_def bullet_truncate)
  next
    case True
    then have "is_bullet_line ?t" by (simp add: bullet_truncate)
    from bullet_nonempty [OF this] obtain c t where ct: "?t = c # t" by (cases ?t) auto
    have "take 1 ?t = take 1 (strip raw)" by (rule take1_truncate)
    with ct have c: "take 1 (strip raw) = [c]" by simp
    from \<open>is_bullet_line ?t\<close> ct have bt: "is_bullet_line (c # t)" by simp
    show ?thesis using False True ct c bt
      by (simp add: render_line_def Let_def line_cmds_def)
  qed
qed

lemma render_lines_eq:
  "render_lines ls =
     Inr (concat (map (\<lambda>raw. if strip raw = [] then [] else line_cmds (strip raw)) ls))"
  by (induction ls) (simp_all add: render_line_eq)

lemma render_lines_body:
  "list_all (body_line U) ls \<Longrightarrow> render_lines ls = Inr (concat (map line_cmds ls))"
proof -
  assume "list_all (body_line U) ls"
  then have eq: "map (\<lambda>raw. if strip raw = [] then [] else line_cmds (strip raw)) ls = map line_cmds ls"
    by (induction ls) (auto simp: body_line_def)
  show ?thesis unfolding render_lines_eq eq by (rule refl)
qed

lemma render_item_good:
  assumes "good_body U b" and "strip b \<noteq> []"
  shows "\<exists>first rest. split_nl b = first # rest \<and> list_all (body_line U) (first # rest) \<and>
           render_item b =
             Inr ((if is_bullet_line first then concat (map line_cmds (first # rest))
                   else sub_heading first @ concat (map line_cmds rest)) @ [Ln 2])"
proof -
  from assms have "b \<noteq> []" by auto
  with assms(1) have all: "list_all (body_line U) (split_nl b)" by (simp add: good_body_def)
  obtain first rest where sp: "split_nl b = first # rest" by (cases "split_nl b") auto
  with all have f: "body_line U first" and r: "list_all (body_line U) rest" by simp_all
  from f have st: "strip first = first" by (simp add: body_line_def)
  have "render_item b =
             Inr ((if is_bullet_line first then concat (map line_cmds (first # rest))
                   else sub_heading first @ concat (map line_cmds rest)) @ [Ln 2])"
  proof (cases "is_bullet_line first")
    case True
    from all sp have "list_all (body_line U) (first # rest)" by simp
    note rl = render_lines_body [OF this]
    from True have "\<not> (\<not> startswith first (ustr ''-'') \<and> \<not> startswith first [8226])"
      by (simp add: is_bullet_line_def)
    then show ?thesis using True assms(2) sp st
      by (auto simp add: render_item_def rl simp del: render_lines.simps)
  next
    case False
    note rl = render_lines_body [OF r]
    from False have "\<not> startswith first (ustr ''-'') \<and> \<not> startswith first [8226]"
      by (simp add: is_bullet_line_def)
    then show ?thesis using False assms(2) sp st
      by (simp add: render_item_def rl del: render_lines.simps)
  qed
  with sp all show ?thesis by simp
qed

lemma render_item_block:
  "good_body U b \<Longrightarrow> strip b \<noteq> [] \<Longrightarrow> render_item b = Inr (block_cmds (split_nl b) @ [Ln 2])"
  using render_item_good [of U b] by (auto simp: block_cmds_def)

lemma render_section_good:
  assumes "good_body U b"
  shows "render_section U (k, b) =
           Inr (if k = ustr ''header'' \<or> strip b = [] then [] else section_cmds U (k, b))"
proof (cases "k = ustr ''header'' \<or> strip b = []")
  case True
  then show ?thesis by (simp add: render_section_def)
next
  case False
  then have nb: "strip b \<noteq> []" by simp
  from split_items_good_body [OF assms] render_item_block [OF assms nb] False
  show ?thesis by (simp add: render_section_def section_cmds_def)
qed




lemma line_cmds_no_sub_heading: "filter is_sub_heading (line_cmds l) = []"
  by (simp add: line_cmds_def is_sub_heading_def)

lemma lines_no_sub_heading: "filter is_sub_heading (concat (map line_cmds ls)) = []"
  by (induction ls) (simp_all add: line_cmds_no_sub_heading)

lemma section_one_sub_heading: "length (filter is_sub_heading (section_cmds U (k, b))) \<le> 1"
proof -
  have b: "filter is_sub_heading (banner U k) = []" by (simp add: banner_def is_sub_heading_def)
  have s: "\<And>f. length (filter is_sub_heading (sub_heading f)) = 1"
    by (simp add: sub_heading_def is_sub_heading_def)
  have "length (filter is_sub_heading (block_cmds (split_nl b))) \<le> 1"
    using s by (auto simp: block_cmds_def lines_no_sub_heading line_cmds_no_sub_heading
        split: list.splits)
  then show ?thesis using b by (simp add: section_cmds_def is_sub_heading_def)
qed

lemma good_body_lines_stripped:
  "good_body U b \<Longrightarrow> b = [] \<or> list_all (\<lambda>l. strip l \<noteq> [] \<and> strip l = l) (split_nl b)"
  by (auto simp: good_body_def body_line_def list_all_iff)

lemma blocks_example_parsed:
  "parse_cv_content U
     (ustr ''Jane'' @ [10] @ [10] @ ustr ''**Skills**'' @ [10] @ [10] @ ustr ''- a'' @ [10] @
      ustr ''   '' @ [10] @ ustr ''b'') =
   Inr [(ustr ''header'', ustr ''Jane''), (ustr ''skills'', ustr ''- a'' @ [10] @ ustr ''b''),
        (ustr ''profile'', []), (ustr ''experience'', []), (ustr ''education'', []),
        (ustr ''languages'', [])]"
  by (simp add: string_eval parser_eval)

section \<open>The claims about the bodies and their rendering\<close>

text \<open>
  C10. For every input, each body in the mapping that the parser returns is empty
  or consists of lines none of which is blank, each of them stripped. The renderer's
  split at runs of blank lines leaves such a body in one piece, so a section has one
  block, and the calls made for a section print at most one sub-heading.
\<close>

theorem parse_bodies_single_block:
  "\<exists>R. parse_cv_content U content = Inr R \<and>
     (\<forall>(k, b)\<in>set R.
        (b = [] \<or> list_all (\<lambda>l. strip l \<noteq> [] \<and> strip l = l) (split_nl b)) \<and>
        split_items b = [b] \<and>
        (\<exists>cmds. render_section U (k, b) = Inr cmds \<and> length (filter is_sub_heading cmds) \<le> 1))"
proof -
  from parse_cv_content_ok [of U content] obtain R where R: "parse_cv_content U content = Inr R"
    and g: "list_all (\<lambda>(k, b). good_body U b) R" by (elim exE conjE)
  have "\<forall>(k, b)\<in>set R.
        (b = [] \<or> list_all (\<lambda>l. strip l \<noteq> [] \<and> strip l = l) (split_nl b)) \<and>
        split_items b = [b] \<and>
        (\<exists>cmds. render_section U (k, b) = Inr cmds \<and> length (filter is_sub_heading cmds) \<le> 1)"
  proof (intro ballI, clarify)
    fix k b assume "(k, b) \<in> set R"
    with g have gb: "good_body U b" by (auto simp: list_all_iff)
    have 1: "b = [] \<or> list_all (\<lambda>l. strip l \<noteq> [] \<and> strip l = l) (split_nl b)"
      using gb by (rule good_body_lines_stripped)
    have 2: "split_items b = [b]" using gb by (rule split_items_good_body)
    have 3: "\<exists>cmds. render_section U (k, b) = Inr cmds \<and> length (filter is_sub_heading cmds) \<le> 1"
      using render_section_good [OF gb, of k] section_one_sub_heading [of U k b] by auto
    from 1 2 3 show "(b = [] \<or> list_all (\<lambda>l. strip l \<noteq> [] \<and> strip l = l) (split_nl b)) \<and>
        split_items b = [b] \<and>
        (\<exists>cmds. render_section U (k, b) = Inr cmds \<and> length (filter is_sub_heading cmds) \<le> 1)"
      by (intro conjI)
  qed
  with R show ?thesis by (intro exI conjI)
qed


theorem parse_bodies_single_block_witness:
  "parse_cv_content plain_casing
     (ustr ''Jane'' @ [10] @ [10] @ ustr ''**Skills**'' @ [10] @ [10] @ ustr ''- a'' @ [10] @
      ustr ''   '' @ [10] @ ustr ''b'') =
   Inr [(ustr ''header'', ustr ''Jane''), (ustr ''skills'', ustr ''- a'' @ [10] @ ustr ''b''),
        (ustr ''profile'', []), (ustr ''experience'', []), (ustr ''education'', []),
        (ustr ''languages'', [])] \<and>
   split_nl (ustr ''- a'' @ [10] @ ustr ''b'') = [ustr ''- a'', ustr ''b''] \<and>
   split_items (ustr ''- a'' @ [10] @ ustr ''b'') = [ustr ''- a'' @ [10] @ ustr ''b''] \<and>
   (\<exists>cmds. render_section plain_casing (ustr ''skills'', ustr ''- a'' @ [10] @ ustr ''b'') = Inr cmds \<and>
      length (filter is_sub_heading cmds) \<le> 1)"
proof -
  let ?inp = "ustr ''Jane'' @ [10] @ [10] @ ustr ''**Skills**'' @ [10] @ [10] @ ustr ''- a'' @ [10] @
      ustr ''   '' @ [10] @ ustr ''b''"
  let ?B = "ustr ''- a'' @ [10] @ ustr ''b''"
  let ?R = "[(ustr ''header'', ustr ''Jane''), (ustr ''skills'', ?B),
        (ustr ''profile'', []), (ustr ''experience'', []), (ustr ''education'', []),
        (ustr ''languages'', [])]"
  have p: "parse_cv_content plain_casing ?inp = Inr ?R" by (rule blocks_example_parsed)
  from parse_bodies_single_block [of plain_casing ?inp]
  obtain R where R: "parse_cv_content plain_casing ?inp = Inr R"
    and all: "\<forall>(k, b)\<in>set R.
        (b = [] \<or> list_all (\<lambda>l. strip l \<noteq> [] \<and> strip l = l) (split_nl b)) \<and>
        split_items b = [b] \<and>
        (\<exists>cmds. render_section plain_casing (k, b) = Inr cmds \<and>
           length (filter is_sub_heading cmds) \<le> 1)"
    by (elim exE conjE)
  from R [unfolded p] have eq: "R = ?R" by simp
  have mem: "(ustr ''skills'', ?B) \<in> set ?R" by simp
  from bspec [OF all [unfolded eq] mem]
  have s: "split_items ?B = [?B]"
    and c: "\<exists>cmds. render_section plain_casing (ustr ''skills'', ?B) = Inr cmds \<and>
      length (filter is_sub_heading cmds) \<le> 1"
    by simp_all
  have l: "split_nl ?B = [ustr ''- a'', ustr ''b'']" by (simp add: ustr_simps)
  show ?thesis by (rule conjI [OF p conjI [OF l conjI [OF s c]]])
qed








end
